theory Spec2Isabelle
  imports Main "HOL-Library.Sublist"
begin

section \<open>Byte strings: the functions of Go's package strings that the spider calls\<close>

text \<open>
  A Go string is a sequence of bytes, here a \<^typ>\<open>string\<close>. The functions below are the
  library functions the spider calls, written from their Go definitions.
\<close>

definition strings_HasPrefix :: "string \<Rightarrow> string \<Rightarrow> bool" where
  "strings_HasPrefix s p \<longleftrightarrow> length p \<le> length s \<and> take (length p) s = p"

definition strings_HasSuffix :: "string \<Rightarrow> string \<Rightarrow> bool" where
  "strings_HasSuffix s x \<longleftrightarrow> length x \<le> length s \<and> drop (length s - length x) s = x"

definition strings_TrimPrefix :: "string \<Rightarrow> string \<Rightarrow> string" where
  "strings_TrimPrefix s p = (if strings_HasPrefix s p then drop (length p) s else s)"

fun strings_Contains :: "string \<Rightarrow> string \<Rightarrow> bool" where
  "strings_Contains [] sub = (sub = [])"
| "strings_Contains (c # cs) sub =
     (strings_HasPrefix (c # cs) sub \<or> strings_Contains cs sub)"

text \<open>
  \<open>strings.ToLower\<close> and \<open>strings.TrimSpace\<close> work on Unicode text: they are parameters
  of the model, with the functions of net/url below. Their ASCII parts, which fold the
  letters \<open>A\<close>..\<open>Z\<close> and trim tab, line feed, vertical tab, form feed, carriage return
  and space, serve in the instance of the library that the scenarios use.
\<close>

definition lower_byte :: "char \<Rightarrow> char" where
  "lower_byte c =
     (case map_of (zip ''ABCDEFGHIJKLMNOPQRSTUVWXYZ'' ''abcdefghijklmnopqrstuvwxyz'') c of
        Some l \<Rightarrow> l
      | None \<Rightarrow> c)"

definition ascii_ToLower :: "string \<Rightarrow> string" where
  "ascii_ToLower s = map lower_byte s"

definition isSpace :: "char \<Rightarrow> bool" where
  "isSpace c \<longleftrightarrow> c \<in> {CHR 0x09, CHR 0x0A, CHR 0x0B, CHR 0x0C, CHR 0x0D, CHR 0x20}"

definition ascii_TrimSpace :: "string \<Rightarrow> string" where
  "ascii_TrimSpace s = rev (dropWhile isSpace (rev (dropWhile isSpace s)))"

section \<open>The interface of Go's standard library\<close>

text \<open>
  The fields of \<open>url.URL\<close>. \<open>User\<close> is the user name with the password, when one is set.
\<close>

record URL =
  Scheme :: string
  Opaque :: string
  User :: "(string \<times> string option) option"
  Host :: string
  Path :: string
  RawPath :: string
  OmitHost :: bool
  ForceQuery :: bool
  RawQuery :: string
  Fragment :: string
  RawFragment :: string

text \<open>
  The functions of the standard library that the repository calls on URLs and on Unicode
  text are parameters of the model: \<open>url.Parse\<close> (\<open>None\<close> is its error),
  \<open>(*URL).String\<close>, \<open>(*URL).ResolveReference\<close> (base first), \<open>u.Query().Get(key)\<close>,
  \<open>strings.ToLower\<close> and \<open>strings.TrimSpace\<close>.
\<close>

record golib =
  url_Parse :: "string \<Rightarrow> URL option"
  url_String :: "URL \<Rightarrow> string"
  url_ResolveReference :: "URL \<Rightarrow> URL \<Rightarrow> URL"
  url_QueryGet :: "URL \<Rightarrow> string \<Rightarrow> string"
  strings_ToLower :: "string \<Rightarrow> string"
  strings_TrimSpace :: "string \<Rightarrow> string"

definition IsAbs :: "URL \<Rightarrow> bool" where
  "IsAbs u \<longleftrightarrow> Scheme u \<noteq> []"

section \<open>The link classifier\<close>

text \<open>
  The types of package webcrawl. The fields of \<open>CrawlResult\<close> carry the prefix \<open>cr_\<close>:
  \<open>SpiderResult\<close> has fields of the same names.
\<close>

record LinkData =
  Href :: string
  Text :: string
  BaseDomain :: string

record Links =
  Internal :: "LinkData list"
  External :: "LinkData list"

record CrawlResult =
  cr_Content :: string
  cr_CrawledURLs :: "string list"
  cr_PagesCrawled :: int
  cr_PageErrors :: "string \<rightharpoonup> string"
  cr_Links :: Links

text \<open>
  \<open>extractLinks\<close> of package webcrawl, the link extraction of the fetcher. The selection
  \<open>a[href]\<close> is the list of its anchors in document order, each the value of its \<open>href\<close>
  attribute with the text of the element. Every link is resolved against the page's
  URL, and is internal when its host is the page's.
\<close>

definition webcrawl_link :: "golib \<Rightarrow> URL \<Rightarrow> string \<times> string \<Rightarrow> Links \<Rightarrow> Links" where
  "webcrawl_link lib baseURLParsed anchor links =
     (case anchor of (href, inner) \<Rightarrow>
      if href = [] then links
      else
        (let trimmed = strings_TrimSpace lib inner;
             text = (if trimmed = [] then href else trimmed)
         in case url_Parse lib href of
              None \<Rightarrow> links
            | Some linkURL \<Rightarrow>
                (let resolvedURL = url_ResolveReference lib baseURLParsed linkURL;
                     linkData = \<lparr>Href = url_String lib resolvedURL, Text = text,
                                 BaseDomain = Host resolvedURL\<rparr>
                 in if Host resolvedURL = Host baseURLParsed
                    then links\<lparr>Internal := Internal links @ [linkData]\<rparr>
                    else links\<lparr>External := External links @ [linkData]\<rparr>)))"

definition webcrawl_extractLinks :: "golib \<Rightarrow> (string \<times> string) list \<Rightarrow> string \<Rightarrow> Links" where
  "webcrawl_extractLinks lib anchors baseURL =
     (case url_Parse lib baseURL of
        None \<Rightarrow> \<lparr>Internal = [], External = []\<rparr>
      | Some baseURLParsed \<Rightarrow>
          fold (webcrawl_link lib baseURLParsed) anchors \<lparr>Internal = [], External = []\<rparr>)"

text \<open>
  What \<open>CrawlWebsite\<close> returns for a document it has fetched: \<open>content\<close> is the text it
  extracted and \<open>anchors\<close> are the anchors of the selection it kept.
\<close>

definition CrawlWebsite_result ::
  "golib \<Rightarrow> string \<Rightarrow> string \<Rightarrow> (string \<times> string) list \<Rightarrow> CrawlResult" where
  "CrawlWebsite_result lib targetURL content anchors =
     \<lparr>cr_Content = content, cr_CrawledURLs = [targetURL], cr_PagesCrawled = 1,
      cr_PageErrors = Map.empty, cr_Links = webcrawl_extractLinks lib anchors targetURL\<rparr>"

text \<open>A \<open>map[string]bool\<close>; reading a missing key gives \<open>false\<close>.\<close>

type_synonym boolmap = "string \<rightharpoonup> bool"

definition lookup :: "boolmap \<Rightarrow> string \<Rightarrow> bool" where
  "lookup m k = (case m k of None \<Rightarrow> False | Some b \<Rightarrow> b)"

text \<open>
  \<open>for k := range m\<close> visits every key once, in an order Go leaves open: \<open>ks\<close> is one
  such order.
\<close>

definition range_keys :: "boolmap \<Rightarrow> string list \<Rightarrow> bool" where
  "range_keys m ks \<longleftrightarrow> distinct ks \<and> set ks = dom m"

text \<open>
  \<open>sanitizeRegex\<close> is \<open>^https?://[^\s")'\]}]+\<close>: \<open>url_char\<close> is its character class
  (\<open>\s\<close> is tab, line feed, form feed, carriage return and space), and \<open>FindString\<close>
  returns the match at the start of the string, or the empty string.
\<close>

definition url_char :: "char \<Rightarrow> bool" where
  "url_char c \<longleftrightarrow>
     c \<notin> {CHR 0x09, CHR 0x0A, CHR 0x0C, CHR 0x0D, CHR 0x20,
          CHR 0x22, CHR '')'', CHR 0x27, CHR '']'', CHR ''}''}"

definition sanitizeRegex_FindString :: "string \<Rightarrow> string" where
  "sanitizeRegex_FindString s =
     (if strings_HasPrefix s ''https://'' then
        (let r = takeWhile url_char (drop 8 s) in if r = [] then [] else ''https://'' @ r)
      else if strings_HasPrefix s ''http://'' then
        (let r = takeWhile url_char (drop 7 s) in if r = [] then [] else ''http://'' @ r)
      else [])"

definition sanitizeURL :: "golib \<Rightarrow> string \<Rightarrow> string" where
  "sanitizeURL lib rawURL = sanitizeRegex_FindString (strings_TrimSpace lib rawURL)"

definition shouldCrawlURL :: "golib \<Rightarrow> URL \<Rightarrow> URL \<Rightarrow> bool \<Rightarrow> bool" where
  "shouldCrawlURL lib targetURL baseURL crawlSubDomain =
     (let targetHost = strings_ToLower lib (Host targetURL);
          baseHost = strings_ToLower lib (Host baseURL)
      in if targetHost = baseHost then True
         else if crawlSubDomain then
           (let targetHostClean = strings_TrimPrefix targetHost ''www.'';
                baseHostClean = strings_TrimPrefix baseHost ''www.''
            in if strings_HasSuffix targetHostClean (''.'' @ baseHostClean) \<or>
                  strings_HasSuffix baseHostClean (''.'' @ targetHostClean)
               then True else False)
         else False)"

definition fileExtensions :: "string list" where
  "fileExtensions =
     [''.pdf'', ''.doc'', ''.docx'',
      ''.xls'', ''.xlsx'', ''.ppt'', ''.pptx'',
      ''.zip'', ''.rar'', ''.gz'', ''.tar'',
      ''.svg'', ''.png'', ''.jpg'', ''.jpeg'', ''.gif'']"

text \<open>
  The loop over \<open>fileExtensions\<close> returns true at the first extension that matches, in
  whatever order the map is visited: it is true exactly when some extension matches.
\<close>

definition isFileURL :: "golib \<Rightarrow> URL \<Rightarrow> bool" where
  "isFileURL lib u =
     (if url_QueryGet lib u ''download'' = ''1'' then True
      else
        (let path = strings_ToLower lib (Path u);
             query = strings_ToLower lib (RawQuery u)
         in if list_ex (\<lambda>ext. strings_HasSuffix path ext) fileExtensions then True
            else if strings_Contains path ''/resource/'' then True
            else if strings_Contains query ''item=form'' \<or> strings_Contains query ''item=statute''
            then True
            else False))"

text \<open>
  \<open>processLinkFromResponse\<close> updates the two sets it is given; the model returns them,
  the crawlable set first.
\<close>

definition processLinkFromResponse ::
  "golib \<Rightarrow> string \<Rightarrow> string \<Rightarrow> string \<Rightarrow> URL \<Rightarrow> bool \<Rightarrow> boolmap \<times> boolmap \<Rightarrow> boolmap \<times> boolmap"
where
  "processLinkFromResponse lib href text baseURL parsedBaseURL crawlSubDomain sets =
     (case sets of (crawlableLinkSet, fileLinkSet) \<Rightarrow>
      if href = [] \<or> strings_HasPrefix href ''#'' then sets
      else
        (let sanitizedLink = sanitizeURL lib href in
         if sanitizedLink = [] then sets
         else
           (case url_Parse lib sanitizedLink of
              None \<Rightarrow> sets
            | Some parsed \<Rightarrow>
                (case (if \<not> IsAbs parsed
                       then (case url_Parse lib baseURL of
                               None \<Rightarrow> None
                             | Some base \<Rightarrow> Some (url_ResolveReference lib base parsed))
                       else Some parsed) of
                   None \<Rightarrow> sets
                 | Some resolvedURL \<Rightarrow>
                     if shouldCrawlURL lib resolvedURL parsedBaseURL crawlSubDomain then
                       (let resolvedURL' = resolvedURL\<lparr>Fragment := []\<rparr>;
                            cleanURL = url_String lib resolvedURL'
                        in if isFileURL lib resolvedURL'
                           then (crawlableLinkSet, fileLinkSet(cleanURL \<mapsto> True))
                           else (crawlableLinkSet(cleanURL \<mapsto> True), fileLinkSet))
                     else sets))))"

text \<open>
  The first loop of \<open>extractLinks\<close>: the two sets after every internal link of the page
  has been processed.
\<close>

fun extractLinks_sets ::
  "golib \<Rightarrow> LinkData list \<Rightarrow> string \<Rightarrow> URL \<Rightarrow> bool \<Rightarrow> boolmap \<times> boolmap \<Rightarrow> boolmap \<times> boolmap"
where
  "extractLinks_sets lib [] baseURL parsedBaseURL crawlSubDomain sets = sets"
| "extractLinks_sets lib (link # links) baseURL parsedBaseURL crawlSubDomain sets =
     (let href = strings_TrimSpace lib (Href link) in
      if href = [] then extractLinks_sets lib links baseURL parsedBaseURL crawlSubDomain sets
      else extractLinks_sets lib links baseURL parsedBaseURL crawlSubDomain
             (processLinkFromResponse lib href (Text link) baseURL parsedBaseURL
                crawlSubDomain sets))"

text \<open>
  \<open>extractLinks\<close> returns the keys of the two sets as slices, in the order the two
  \<open>range\<close> loops visit them: \<open>extractLinks\<close> holds of every pair of slices a call can
  return.
\<close>

definition extractLinks ::
  "golib \<Rightarrow> CrawlResult \<Rightarrow> string \<Rightarrow> URL \<Rightarrow> bool \<Rightarrow> string list \<Rightarrow> string list \<Rightarrow> bool"
where
  "extractLinks lib crawlResult baseURL parsedBaseURL crawlSubDomain crawlableLinks fileLinks =
     (case extractLinks_sets lib (Internal (cr_Links crawlResult)) baseURL parsedBaseURL
             crawlSubDomain (Map.empty, Map.empty) of
        (crawlableLinkSet, fileLinkSet) \<Rightarrow>
          range_keys crawlableLinkSet crawlableLinks \<and> range_keys fileLinkSet fileLinks)"

section \<open>The crawl: data\<close>

text \<open>
  Go's \<open>int\<close> has 64 bits. The counters of the crawl are integers here; the one product
  that can leave the range, the capacity of the job channel, is wrapped by \<open>int64\<close>.
  Durations are nanoseconds.
\<close>

definition int64 :: "int \<Rightarrow> int" where
  "int64 x = (x + 2 ^ 63) mod 2 ^ 64 - 2 ^ 63"

record SpiderOptions =
  MaxPages :: int
  MaxDepth :: int
  CrawlSubDomain :: bool
  Timeout :: int
  Concurrency :: int
  DelayBetween :: int

text \<open>The field \<open>ProcessingTime\<close>, a wall-clock duration, is not modelled.\<close>

record SpiderResult =
  Content :: string
  CrawledURLs :: "string list"
  DetectedFileUrls :: "string list"
  TotalPages :: int
  SuccessfulPages :: int
  FailedPages :: "string \<rightharpoonup> string"

record urlJob =
  url :: string
  depth :: int

definition DefaultSpiderOptions :: SpiderOptions where
  "DefaultSpiderOptions =
     \<lparr>MaxPages = 100, MaxDepth = 3, CrawlSubDomain = True,
      Timeout = 30 * 1000000000, Concurrency = 5, DelayBetween = 1 * 1000000000\<rparr>"

subsection \<open>removeMarkdownLinks\<close>

text \<open>
  The regular expression is \<open>\[([^\]]*)\]\([^)]*\)\<close>. \<open>md_link cs\<close> matches it on
  \<open>[\<close> followed by \<open>cs\<close>: the link's text and what follows the link.
\<close>

definition md_link :: "string \<Rightarrow> (string \<times> string) option" where
  "md_link cs =
     (case dropWhile (\<lambda>x. x \<noteq> CHR '']'') cs of
        b # p # rest \<Rightarrow>
          if p = CHR ''('' then
            (case dropWhile (\<lambda>x. x \<noteq> CHR '')'') rest of
               q # rest' \<Rightarrow> Some (takeWhile (\<lambda>x. x \<noteq> CHR '']'') cs, rest')
             | [] \<Rightarrow> None)
          else None
      | _ \<Rightarrow> None)"

lemma md_link_shorter: "md_link cs = Some (t, r) \<Longrightarrow> length r < Suc (length cs)"
proof -
  assume a: "md_link cs = Some (t, r)"
  have d: "length (dropWhile P xs) \<le> length xs" for P and xs :: string
    by (induction xs) auto
  from a obtain b p rest q where
    1: "dropWhile (\<lambda>x. x \<noteq> CHR '']'') cs = b # p # rest" and
    2: "dropWhile (\<lambda>x. x \<noteq> CHR '')'') rest = q # r"
    by (auto simp: md_link_def split: list.splits if_splits)
  have "length r < length rest" using d [of "\<lambda>x. x \<noteq> CHR '')''" rest] 2 by simp
  moreover have "length rest < length cs" using d [of "\<lambda>x. x \<noteq> CHR '']''" cs] 1 by simp
  ultimately show ?thesis by simp
qed

function removeMarkdownLinks :: "string \<Rightarrow> string" where
  "removeMarkdownLinks [] = []"
| "removeMarkdownLinks (c # cs) =
     (if c = CHR ''['' then
        (case md_link cs of
           Some (t, r) \<Rightarrow> t @ removeMarkdownLinks r
         | None \<Rightarrow> c # removeMarkdownLinks cs)
      else c # removeMarkdownLinks cs)"
  by pat_completeness auto
termination
  by (relation "measure length") (auto dest: md_link_shorter)

subsection \<open>The threads of one call\<close>

text \<open>
  A worker is one goroutine started at line 110, with its arguments and the place it has
  reached. Every critical section of \<open>mu\<close> and \<open>workerMu\<close> and every channel operation is
  one step.
\<close>

datatype wpc =
    W_Fetch                             \<comment> \<open>sleeps, then calls \<open>webcrawl.CrawlWebsite\<close>\<close>
  | W_Failed string                     \<comment> \<open>the fetch failed; about to record it\<close>
  | W_Fetched CrawlResult               \<comment> \<open>the fetch returned; about to record the page\<close>
  | W_Expand CrawlResult                \<comment> \<open>at \<open>if currentDepth < options.MaxDepth\<close>\<close>
  | W_Files "string list" "string list" \<comment> \<open>links extracted; about to append the file links\<close>
  | W_Enqueue "string list"             \<comment> \<open>the loop over the crawlable links still to offer\<close>
  | W_Leave                             \<comment> \<open>deferred: \<open>activeWorkers--\<close>\<close>
  | W_Release                           \<comment> \<open>deferred: \<open><-semaphore\<close>\<close>
  | W_Done                              \<comment> \<open>deferred: \<open>wg.Done()\<close>\<close>
  | W_Dead

record worker =
  currentURL :: string
  currentDepth :: int
  wpc :: wpc

text \<open>The place the calling goroutine has reached in \<open>SpiderWebsite\<close>.\<close>

datatype mpc =
    M_Seed                \<comment> \<open>\<open>urlJobs <- urlJob{url: targetURL, depth: 0}\<close>\<close>
  | M_Select              \<comment> \<open>at the \<open>select\<close>\<close>
  | M_Check urlJob        \<comment> \<open>received a job; at the test of line 91\<close>
  | M_Lock urlJob         \<comment> \<open>at \<open>mu.Lock()\<close>, line 95\<close>
  | M_Spawn urlJob        \<comment> \<open>at \<open>semaphore <- struct{}{}\<close>, line 104\<close>
  | M_Limit               \<comment> \<open>at the test of line 199\<close>
  | M_Idle                \<comment> \<open>the timer fired; about to read \<open>activeWorkers\<close>\<close>
  | M_IdleCheck int       \<comment> \<open>at the test of line 192, with the value read\<close>
  | M_Wait                \<comment> \<open>at \<open>wg.Wait()\<close>\<close>
  | M_Finalize            \<comment> \<open>lines 211 to 229\<close>
  | M_Return              \<comment> \<open>\<open>return result, nil\<close>\<close>
  | M_Panic               \<comment> \<open>a run-time panic\<close>

record state =
  options :: SpiderOptions      \<comment> \<open>the struct \<open>options\<close> points to\<close>
  targetURL :: string
  parsedURL :: URL
  result :: SpiderResult
  visitedURLs :: boolmap
  urlJobs :: "urlJob list"      \<comment> \<open>the buffer of the channel, oldest first\<close>
  urlJobs_cap :: int
  semaphore :: int              \<comment> \<open>the number of permits in the channel\<close>
  activeWorkers :: int
  wg :: int
  mpc :: mpc
  workers :: "worker list"

text \<open>
  What the environment decides: which thread moves, which case a \<open>select\<close> with two ready
  cases takes, what the fetcher returns, and the order in which \<open>extractLinks\<close> visits its
  two sets.
\<close>

datatype event =
    Recv                                \<comment> \<open>the \<open>select\<close> receives a job\<close>
  | Idle                                \<comment> \<open>the \<open>select\<close> takes the timer\<close>
  | Sched                               \<comment> \<open>the caller's goroutine moves\<close>
  | Fetch_Ok nat CrawlResult            \<comment> \<open>the fetch of worker \<open>i\<close> returns a page\<close>
  | Fetch_Err nat string                \<comment> \<open>the fetch of worker \<open>i\<close> fails\<close>
  | Extract nat "string list" "string list" \<comment> \<open>worker \<open>i\<close> extracts these links\<close>
  | Work nat                            \<comment> \<open>worker \<open>i\<close> moves\<close>

datatype error = ParseError | MakechanPanic

section \<open>The crawl: steps\<close>

text \<open>
  The start of \<open>SpiderWebsite\<close>, to line 84. \<open>make\<close> panics on a negative size; the limits
  of the allocator are not modelled.
\<close>

definition coerce :: "SpiderOptions option \<Rightarrow> SpiderOptions" where
  "coerce given =
     (let options = (case given of None \<Rightarrow> DefaultSpiderOptions | Some opts \<Rightarrow> opts)
      in if MaxPages options \<le> 0 then options\<lparr>MaxPages := 1\<rparr> else options)"

definition SpiderWebsite_start :: "golib \<Rightarrow> string \<Rightarrow> SpiderOptions option \<Rightarrow> error + state" where
  "SpiderWebsite_start lib target given =
     (let options = coerce given in
      case url_Parse lib target of
        None \<Rightarrow> Inl ParseError
      | Some parsed \<Rightarrow>
          if int64 (MaxPages options * 2) < 0 \<or> Concurrency options < 0 then Inl MakechanPanic
          else Inr
            \<lparr>options = options, targetURL = target, parsedURL = parsed,
             result = \<lparr>Content = [], CrawledURLs = [], DetectedFileUrls = [],
                       TotalPages = 0, SuccessfulPages = 0, FailedPages = Map.empty\<rparr>,
             visitedURLs = Map.empty, urlJobs = [],
             urlJobs_cap = int64 (MaxPages options * 2),
             semaphore = 0, activeWorkers = 0, wg = 0, mpc = M_Seed, workers = []\<rparr>)"

text \<open>
  The set that lines 213 to 216 build from the detected file URLs. Its keys go to the
  logger; the result is not written.
\<close>

definition uniqueFileUrls :: "string list \<Rightarrow> boolmap" where
  "uniqueFileUrls fileUrls = fold (\<lambda>fileUrl m. m(fileUrl \<mapsto> True)) fileUrls Map.empty"

text \<open>
  A step of the caller's goroutine other than the \<open>select\<close>; \<open>None\<close> when it is blocked.
  Line 104 to the \<open>go\<close> statement of line 110 is one step: it blocks while the semaphore
  is full, and what follows the send touches the caller's own counters.
\<close>

definition sched_step :: "state \<Rightarrow> state option" where
  "sched_step s =
     (case mpc s of
        M_Seed \<Rightarrow>
          if int (length (urlJobs s)) < urlJobs_cap s
          then Some (s\<lparr>urlJobs := urlJobs s @ [\<lparr>url = targetURL s, depth = 0\<rparr>],
                       mpc := M_Select\<rparr>)
          else None
      | M_Select \<Rightarrow> None
      | M_Check job \<Rightarrow>
          if TotalPages (result s) \<ge> MaxPages (options s) \<or> depth job > MaxDepth (options s)
          then Some (s\<lparr>mpc := M_Select\<rparr>)
          else Some (s\<lparr>mpc := M_Lock job\<rparr>)
      | M_Lock job \<Rightarrow>
          if lookup (visitedURLs s) (url job) then Some (s\<lparr>mpc := M_Select\<rparr>)
          else Some (s\<lparr>visitedURLs := (visitedURLs s)(url job \<mapsto> True),
                       result := (result s)\<lparr>TotalPages := TotalPages (result s) + 1\<rparr>,
                       mpc := M_Spawn job\<rparr>)
      | M_Spawn job \<Rightarrow>
          if semaphore s < Concurrency (options s)
          then Some (s\<lparr>semaphore := semaphore s + 1, wg := wg s + 1,
                       activeWorkers := activeWorkers s + 1,
                       workers := workers s @
                         [\<lparr>currentURL = url job, currentDepth = depth job, wpc = W_Fetch\<rparr>],
                       mpc := M_Limit\<rparr>)
          else None
      | M_Limit \<Rightarrow>
          if TotalPages (result s) \<ge> MaxPages (options s) then Some (s\<lparr>mpc := M_Wait\<rparr>)
          else Some (s\<lparr>mpc := M_Select\<rparr>)
      | M_Idle \<Rightarrow> Some (s\<lparr>mpc := M_IdleCheck (activeWorkers s)\<rparr>)
      | M_IdleCheck currentActiveWorkers \<Rightarrow>
          if currentActiveWorkers = 0 \<and> length (urlJobs s) = 0 then Some (s\<lparr>mpc := M_Wait\<rparr>)
          else Some (s\<lparr>mpc := M_Select\<rparr>)
      | M_Wait \<Rightarrow> if wg s = 0 then Some (s\<lparr>mpc := M_Finalize\<rparr>) else None
      | M_Finalize \<Rightarrow> Some (s\<lparr>mpc := M_Return\<rparr>)
      | M_Return \<Rightarrow> None
      | M_Panic \<Rightarrow> None)"

definition recv_step :: "state \<Rightarrow> state option" where
  "recv_step s =
     (case mpc s of
        M_Select \<Rightarrow>
          (case urlJobs s of
             [] \<Rightarrow> None
           | job # jobs \<Rightarrow> Some (s\<lparr>urlJobs := jobs, mpc := M_Check job\<rparr>))
      | _ \<Rightarrow> None)"

definition idle_step :: "state \<Rightarrow> state option" where
  "idle_step s = (case mpc s of M_Select \<Rightarrow> Some (s\<lparr>mpc := M_Idle\<rparr>) | _ \<Rightarrow> None)"

definition at_wpc :: "nat \<Rightarrow> wpc \<Rightarrow> state \<Rightarrow> state" where
  "at_wpc i pc s = s\<lparr>workers := (workers s)[i := (workers s ! i)\<lparr>wpc := pc\<rparr>]\<rparr>"

text \<open>
  A step of worker \<open>i\<close> that takes nothing from the environment. The send of line 174 is
  not blocking: a link is dropped when the buffer is full. \<open>wg.Done\<close> panics when the
  counter would become negative.
\<close>

definition work_step :: "nat \<Rightarrow> state \<Rightarrow> state option" where
  "work_step i s =
     (if i < length (workers s) then
        (let w = workers s ! i in
         case wpc w of
           W_Fetch \<Rightarrow> None
         | W_Failed err \<Rightarrow>
             Some (at_wpc i W_Leave
               (s\<lparr>result := (result s)\<lparr>FailedPages := (FailedPages (result s))(currentURL w \<mapsto> err)\<rparr>\<rparr>))
         | W_Fetched crawlResult \<Rightarrow>
             Some (at_wpc i (W_Expand crawlResult)
               (s\<lparr>result := (result s)
                   \<lparr>Content := Content (result s) @ [CHR 0x0A, CHR 0x0A] @ ''# URL: '' @
                       currentURL w @ [CHR 0x0A, CHR 0x0A] @
                       removeMarkdownLinks (cr_Content crawlResult),
                    CrawledURLs := CrawledURLs (result s) @ [currentURL w],
                    SuccessfulPages := SuccessfulPages (result s) + 1\<rparr>\<rparr>))
         | W_Expand crawlResult \<Rightarrow>
             if currentDepth w < MaxDepth (options s) then None
             else Some (at_wpc i W_Leave s)
         | W_Files crawlableLinks fileLinks \<Rightarrow>
             Some (at_wpc i (W_Enqueue crawlableLinks)
               (s\<lparr>result := (result s)
                   \<lparr>DetectedFileUrls := DetectedFileUrls (result s) @ fileLinks\<rparr>\<rparr>))
         | W_Enqueue [] \<Rightarrow> Some (at_wpc i W_Leave s)
         | W_Enqueue (link # links) \<Rightarrow>
             if int (length (urlJobs s)) < urlJobs_cap s
             then Some (at_wpc i (W_Enqueue links)
                    (s\<lparr>urlJobs := urlJobs s @ [\<lparr>url = link, depth = currentDepth w + 1\<rparr>]\<rparr>))
             else Some (at_wpc i (W_Enqueue links) s)
         | W_Leave \<Rightarrow> Some (at_wpc i W_Release (s\<lparr>activeWorkers := activeWorkers s - 1\<rparr>))
         | W_Release \<Rightarrow>
             if 0 < semaphore s then Some (at_wpc i W_Done (s\<lparr>semaphore := semaphore s - 1\<rparr>))
             else None
         | W_Done \<Rightarrow>
             if 0 < wg s then Some (at_wpc i W_Dead (s\<lparr>wg := wg s - 1\<rparr>))
             else Some (s\<lparr>mpc := M_Panic\<rparr>)
         | W_Dead \<Rightarrow> None)
      else None)"

text \<open>The fetcher returns to worker \<open>i\<close>: a page, or an error.\<close>

definition fetch_step :: "nat \<Rightarrow> string + CrawlResult \<Rightarrow> state \<Rightarrow> state option" where
  "fetch_step i outcome s =
     (if i < length (workers s) then
        (case wpc (workers s ! i) of
           W_Fetch \<Rightarrow>
             (case outcome of
                Inl err \<Rightarrow> Some (at_wpc i (W_Failed err) s)
              | Inr crawlResult \<Rightarrow> Some (at_wpc i (W_Fetched crawlResult) s))
         | _ \<Rightarrow> None)
      else None)"

text \<open>Worker \<open>i\<close>, below the maximal depth, calls \<open>extractLinks\<close> and gets the two slices.\<close>

definition extract_step ::
  "golib \<Rightarrow> nat \<Rightarrow> string list \<Rightarrow> string list \<Rightarrow> state \<Rightarrow> state option"
where
  "extract_step lib i crawlableLinks fileLinks s =
     (if i < length (workers s) then
        (let w = workers s ! i in
         case wpc w of
           W_Expand crawlResult \<Rightarrow>
             if currentDepth w < MaxDepth (options s) \<and>
                extractLinks lib crawlResult (currentURL w) (parsedURL s)
                  (CrawlSubDomain (options s)) crawlableLinks fileLinks
             then Some (at_wpc i (W_Files crawlableLinks fileLinks) s)
             else None
         | _ \<Rightarrow> None)
      else None)"

definition step :: "golib \<Rightarrow> event \<Rightarrow> state \<Rightarrow> state option" where
  "step lib e s =
     (case e of
        Recv \<Rightarrow> recv_step s
      | Idle \<Rightarrow> idle_step s
      | Sched \<Rightarrow> sched_step s
      | Fetch_Ok i crawlResult \<Rightarrow> fetch_step i (Inr crawlResult) s
      | Fetch_Err i err \<Rightarrow> fetch_step i (Inl err) s
      | Extract i crawlableLinks fileLinks \<Rightarrow> extract_step lib i crawlableLinks fileLinks s
      | Work i \<Rightarrow> work_step i s)"

text \<open>An execution: the events taken in order; \<open>None\<close> when one of them is not enabled.\<close>

fun exec :: "golib \<Rightarrow> event list \<Rightarrow> state \<Rightarrow> state option" where
  "exec lib [] s = Some s"
| "exec lib (e # es) s = (case step lib e s of None \<Rightarrow> None | Some s' \<Rightarrow> exec lib es s')"

section \<open>An instance of the library\<close>

text \<open>
  For the scenarios: an instance for URLs of the plain shape
  \<open>http(s)://host/path?query#fragment\<close> and references of the shape
  \<open>/path?query#fragment\<close>, without user, port, escapes, brackets or dot segments, and
  for ASCII text, on which it computes what the library computes. Its parser refuses
  a string that starts with none of \<open>http://\<close>, \<open>https://\<close> and a single \<open>/\<close>.
\<close>

definition cut :: "char \<Rightarrow> string \<Rightarrow> string \<times> string" where
  "cut c s = (takeWhile (\<lambda>x. x \<noteq> c) s, drop 1 (dropWhile (\<lambda>x. x \<noteq> c) s))"

definition plain_parts :: "string \<Rightarrow> string \<Rightarrow> URL" where
  "plain_parts scheme rest =
     (case cut CHR ''#'' rest of (rest1, frag) \<Rightarrow>
      case cut CHR ''?'' rest1 of (rest2, query) \<Rightarrow>
        \<lparr>Scheme = scheme, Opaque = [], User = None,
         Host = takeWhile (\<lambda>x. x \<noteq> CHR ''/'') rest2,
         Path = dropWhile (\<lambda>x. x \<noteq> CHR ''/'') rest2,
         RawPath = [], OmitHost = False, ForceQuery = False,
         RawQuery = query, Fragment = frag, RawFragment = []\<rparr>)"

definition plain_Parse :: "string \<Rightarrow> URL option" where
  "plain_Parse s =
     (if strings_HasPrefix s ''https://'' then Some (plain_parts ''https'' (drop 8 s))
      else if strings_HasPrefix s ''http://'' then Some (plain_parts ''http'' (drop 7 s))
      else if strings_HasPrefix s ''/'' \<and> \<not> strings_HasPrefix s ''//''
        then Some (plain_parts [] s)
      else None)"

definition plain_String :: "URL \<Rightarrow> string" where
  "plain_String u =
     (if Scheme u = [] then [] else Scheme u @ ''://'') @ Host u @ Path u @
     (if RawQuery u = [] then [] else ''?'' @ RawQuery u) @
     (if Fragment u = [] then [] else ''#'' @ Fragment u)"

lemma cut_shorter: "q \<noteq> [] \<Longrightarrow> length (snd (cut c q)) < length q"
proof -
  assume q: "q \<noteq> []"
  have d: "length (dropWhile P xs) \<le> length xs" for P and xs :: string
    by (induction xs) auto
  have "length (snd (cut c q)) = length (dropWhile (\<lambda>x. x \<noteq> c) q) - 1"
    by (simp add: cut_def)
  moreover have "0 < length q" using q by simp
  ultimately show ?thesis using d [of "\<lambda>x. x \<noteq> c" q] by linarith
qed

function plain_query :: "string \<Rightarrow> string \<Rightarrow> string" where
  "plain_query q key =
     (if q = [] then []
      else (let pair = fst (cut CHR ''&'' q); k = fst (cut CHR ''='' pair);
                v = snd (cut CHR ''='' pair)
            in if k = key then v else plain_query (snd (cut CHR ''&'' q)) key))"
  by pat_completeness auto
termination
  by (relation "measure (\<lambda>(q, key). length q)") (auto simp: cut_shorter)

text \<open>
  \<open>ResolveReference\<close> on these: an absolute reference is the result, and a reference
  that is an absolute path takes the scheme and the host of the base.
\<close>

definition plain_ResolveReference :: "URL \<Rightarrow> URL \<Rightarrow> URL" where
  "plain_ResolveReference u ref =
     (if Scheme ref \<noteq> [] then ref else ref\<lparr>Scheme := Scheme u, Host := Host u\<rparr>)"

definition plain_golib :: golib where
  "plain_golib =
     \<lparr>url_Parse = plain_Parse, url_String = plain_String,
      url_ResolveReference = plain_ResolveReference,
      url_QueryGet = (\<lambda>u key. plain_query (RawQuery u) key),
      strings_ToLower = ascii_ToLower, strings_TrimSpace = ascii_TrimSpace\<rparr>"

section \<open>Invariants of the crawl\<close>

text \<open>What no step writes: the options, the seed and the capacity of the job channel.\<close>

definition same_frame :: "state \<Rightarrow> state \<Rightarrow> bool" where
  "same_frame s s' \<longleftrightarrow>
     options s' = options s \<and> targetURL s' = targetURL s \<and> parsedURL s' = parsedURL s \<and>
     urlJobs_cap s' = urlJobs_cap s"

text \<open>The page limit: the counter is below the limit when a job reaches the lock.\<close>

definition pages_ok :: "state \<Rightarrow> bool" where
  "pages_ok s \<longleftrightarrow>
     TotalPages (result s) \<le> MaxPages (options s) \<and>
     (\<forall>job. mpc s = M_Lock job \<longrightarrow> TotalPages (result s) < MaxPages (options s))"

section \<open>A scenario\<close>

text \<open>
  The seed \<open>https://a.test/\<close> links to a page and to a document, by the relative
  references \<open>/p1\<close> and \<open>/doc.pdf\<close>; the page links to the same document. The events are
  one schedule of the crawl: the seed, then the page, each worker finishing before the
  next job is received.
\<close>

definition scenario_options :: SpiderOptions where
  "scenario_options =
     \<lparr>MaxPages = 10, MaxDepth = 2, CrawlSubDomain = False,
      Timeout = 30 * 1000000000, Concurrency = 2, DelayBetween = 0\<rparr>"

definition scenario_home :: CrawlResult where
  "scenario_home =
     CrawlWebsite_result plain_golib ''https://a.test/'' ''home''
       [(''/p1'', ''p1''), (''/doc.pdf'', ''doc'')]"

definition scenario_p1 :: CrawlResult where
  "scenario_p1 =
     CrawlWebsite_result plain_golib ''https://a.test/p1'' ''one'' [(''/doc.pdf'', ''doc'')]"

definition scenario_events :: "event list" where
  "scenario_events =
     [Sched, Recv, Sched, Sched, Sched, Sched,
      Fetch_Ok 0 scenario_home, Work 0,
      Extract 0 [''https://a.test/p1''] [''https://a.test/doc.pdf''],
      Work 0, Work 0, Work 0, Work 0, Work 0, Work 0,
      Recv, Sched, Sched, Sched, Sched,
      Fetch_Ok 1 scenario_p1, Work 1,
      Extract 1 [] [''https://a.test/doc.pdf''],
      Work 1, Work 1, Work 1, Work 1, Work 1,
      Idle, Sched, Sched, Sched, Sched]"

section \<open>The spec's rule of scope\<close>

text \<open>
  Section 4.5, step 5, in the spec's words, on hosts in lower case: a link is in scope
  when its host equals the seed's, or, with \<open>crawlSubDomain\<close>, when one of the two hosts,
  a leading \<open>www.\<close> stripped from both, is a dot-suffix of the other: the other ends with
  a dot followed by it.
\<close>

definition strip_www :: "string \<Rightarrow> string" where
  "strip_www h = (if prefix ''www.'' h then drop 4 h else h)"

definition dot_suffix :: "string \<Rightarrow> string \<Rightarrow> bool" where
  "dot_suffix k h \<longleftrightarrow> (\<exists>label. h = label @ ''.'' @ k)"

definition in_scope :: "string \<Rightarrow> string \<Rightarrow> bool \<Rightarrow> bool" where
  "in_scope host seedHost crawlSubDomain \<longleftrightarrow>
     host = seedHost \<or>
     crawlSubDomain \<and>
       (dot_suffix (strip_www seedHost) (strip_www host) \<or>
        dot_suffix (strip_www host) (strip_www seedHost))"

section \<open>The spec's sanitized value\<close>

text \<open>
  Section 4.5, step 2: a string that looks like a well-formed absolute URL is \<open>http://\<close>
  or \<open>https://\<close> followed by at least one character, none of them white space or one of
  the closing characters that markup leaves behind.
\<close>

definition url_like :: "string \<Rightarrow> bool" where
  "url_like p \<longleftrightarrow>
     (\<exists>body. body \<noteq> [] \<and> list_all url_char body \<and>
        (p = ''http://'' @ body \<or> p = ''https://'' @ body))"

section \<open>What the classifier needs of net/url\<close>

text \<open>
  Two facts of net/url: \<open>Parse\<close> gives a string that starts with \<open>http://\<close> or
  \<open>https://\<close> that scheme, and \<open>String\<close> writes the scheme of an absolute URL and a colon
  first.
\<close>

definition keeps_scheme :: "golib \<Rightarrow> bool" where
  "keeps_scheme lib \<longleftrightarrow>
     (\<forall>s u. url_Parse lib s = Some u \<longrightarrow>
        (strings_HasPrefix s ''http://'' \<longrightarrow> Scheme u = ''http'') \<and>
        (strings_HasPrefix s ''https://'' \<longrightarrow> Scheme u = ''https'')) \<and>
     (\<forall>u. Scheme u \<noteq> [] \<longrightarrow> strings_HasPrefix (url_String lib u) (Scheme u @ '':''))"

text \<open>An absolute URL of the web: it starts with the scheme \<open>http:\<close> or \<open>https:\<close>.\<close>

definition web_url :: "string \<Rightarrow> bool" where
  "web_url k \<longleftrightarrow> strings_HasPrefix k ''http:'' \<or> strings_HasPrefix k ''https:''"

section \<open>Admissions, visits and records\<close>

text \<open>
  The URLs an event admits in a state: the caller's goroutine leaves the critical
  section of lines 95 to 102 with the URL marked and counted.
\<close>

definition admits :: "event \<Rightarrow> state \<Rightarrow> string list" where
  "admits e s =
     (case mpc s of
        M_Lock job \<Rightarrow> if e = Sched \<and> \<not> lookup (visitedURLs s) (url job) then [url job] else []
      | _ \<Rightarrow> [])"

fun admitted :: "golib \<Rightarrow> event list \<Rightarrow> state \<Rightarrow> string list" where
  "admitted lib [] s = []"
| "admitted lib (e # es) s =
     (case step lib e s of None \<Rightarrow> [] | Some s' \<Rightarrow> admits e s @ admitted lib es s')"

definition worker_urls :: "state \<Rightarrow> string list" where
  "worker_urls s = map currentURL (workers s)"

text \<open>The URL that is admitted and whose worker is not started yet.\<close>

definition spawning :: "state \<Rightarrow> string set" where
  "spawning s = (case mpc s of M_Spawn job \<Rightarrow> {url job} | _ \<Rightarrow> {})"

text \<open>A worker that has not recorded its page yet, as crawled or as failed.\<close>

definition pending :: "wpc \<Rightarrow> bool" where
  "pending pc = (case pc of W_Fetch \<Rightarrow> True | W_Failed _ \<Rightarrow> True | W_Fetched _ \<Rightarrow> True | _ \<Rightarrow> False)"

text \<open>
  The visited set holds the URLs of the workers and the URL being spawned, each once,
  and the counter counts them.
\<close>

definition visited_ok :: "state \<Rightarrow> bool" where
  "visited_ok s \<longleftrightarrow>
     dom (visitedURLs s) = set (worker_urls s) \<union> spawning s \<and>
     (\<forall>k. visitedURLs s k \<noteq> Some False) \<and>
     distinct (worker_urls s) \<and> set (worker_urls s) \<inter> spawning s = {} \<and>
     TotalPages (result s) = int (length (workers s)) + int (card (spawning s))"

text \<open>
  The crawled URLs and the failed ones are URLs of workers that have recorded their
  page, each in one of the two.
\<close>

definition recorded_ok :: "state \<Rightarrow> bool" where
  "recorded_ok s \<longleftrightarrow>
     distinct (CrawledURLs (result s)) \<and>
     set (CrawledURLs (result s)) \<inter> dom (FailedPages (result s)) = {} \<and>
     set (CrawledURLs (result s)) \<union> dom (FailedPages (result s)) \<subseteq> set (worker_urls s) \<and>
     (\<forall>i < length (workers s). pending (wpc (workers s ! i)) \<longrightarrow>
        currentURL (workers s ! i) \<notin>
          set (CrawledURLs (result s)) \<union> dom (FailedPages (result s)))"

section \<open>The counters of the worker pool\<close>

text \<open>
  A worker holds its permit until it has received from the semaphore, is counted in
  \<open>activeWorkers\<close> until it has decremented it, and in the wait group until \<open>wg.Done\<close>.
\<close>

definition holds_permit :: "wpc \<Rightarrow> bool" where
  "holds_permit pc \<longleftrightarrow> pc \<noteq> W_Done \<and> pc \<noteq> W_Dead"

definition active :: "wpc \<Rightarrow> bool" where
  "active pc \<longleftrightarrow> pc \<noteq> W_Release \<and> pc \<noteq> W_Done \<and> pc \<noteq> W_Dead"

definition alive :: "wpc \<Rightarrow> bool" where
  "alive pc \<longleftrightarrow> pc \<noteq> W_Dead"

definition count :: "(wpc \<Rightarrow> bool) \<Rightarrow> worker list \<Rightarrow> nat" where
  "count P ws = length (filter (\<lambda>w. P (wpc w)) ws)"

definition counts_ok :: "state \<Rightarrow> bool" where
  "counts_ok s \<longleftrightarrow>
     semaphore s = int (count holds_permit (workers s)) \<and>
     activeWorkers s = int (count active (workers s)) \<and>
     wg s = int (count alive (workers s)) \<and>
     semaphore s \<le> Concurrency (options s) \<and>
     int (length (urlJobs s)) \<le> urlJobs_cap s \<and>
     mpc s \<noteq> M_Panic"

section \<open>Depth\<close>

text \<open>A worker that has extracted the links of its page and has yet to offer them.\<close>

definition expanding :: "wpc \<Rightarrow> bool" where
  "expanding pc = (case pc of W_Files _ _ \<Rightarrow> True | W_Enqueue _ \<Rightarrow> True | _ \<Rightarrow> False)"

text \<open>
  No worker runs deeper than the maximal depth, a worker that expands is above it, and
  no job deeper than it is queued (the seed, at depth 0, is queued whatever the limit).
\<close>

definition depth_ok :: "state \<Rightarrow> bool" where
  "depth_ok s \<longleftrightarrow>
     (\<forall>i < length (workers s).
        currentDepth (workers s ! i) \<le> MaxDepth (options s) \<and>
        (expanding (wpc (workers s ! i)) \<longrightarrow>
           currentDepth (workers s ! i) < MaxDepth (options s))) \<and>
     (\<forall>job. mpc s = M_Lock job \<or> mpc s = M_Spawn job \<longrightarrow> depth job \<le> MaxDepth (options s)) \<and>
     (\<forall>job \<in> set (urlJobs s). depth job \<le> max 0 (MaxDepth (options s)))"

definition crawl_inv :: "state \<Rightarrow> bool" where
  "crawl_inv s \<longleftrightarrow> counts_ok s \<and> pages_ok s \<and> visited_ok s \<and> recorded_ok s \<and> depth_ok s"

section \<open>Termination\<close>

text \<open>
  The idle polls of the caller's goroutine: the \<open>select\<close> takes the timer, the counter of
  active workers is read, and the loop continues at line 196.
\<close>

definition polling :: "event \<Rightarrow> state \<Rightarrow> bool" where
  "polling e s \<longleftrightarrow>
     (case mpc s of
        M_Select \<Rightarrow> e = Idle
      | M_Idle \<Rightarrow> e = Sched
      | M_IdleCheck n \<Rightarrow> e = Sched \<and> (n \<noteq> 0 \<or> urlJobs s \<noteq> [])
      | _ \<Rightarrow> False)"

text \<open>
  The rank of a state: the pages that may still be admitted; the steps the workers
  have left before their links are known; and the steps left once they are, with 3 for
  every queued job and the way the caller's goroutine has to go.
\<close>

fun unfetched :: "wpc \<Rightarrow> nat" where
  "unfetched W_Fetch = 3"
| "unfetched (W_Fetched _) = 2"
| "unfetched (W_Expand _) = 1"
| "unfetched _ = 0"

fun wwork :: "wpc \<Rightarrow> nat" where
  "wwork (W_Failed _) = 4"
| "wwork (W_Files crawlableLinks _) = 4 * length crawlableLinks + 5"
| "wwork (W_Enqueue links) = 4 * length links + 4"
| "wwork W_Leave = 3"
| "wwork W_Release = 2"
| "wwork W_Done = 1"
| "wwork _ = 0"

fun mwork :: "mpc \<Rightarrow> nat" where
  "mwork M_Seed = 7"
| "mwork M_Select = 3"
| "mwork (M_Check _) = 5"
| "mwork (M_Lock _) = 4"
| "mwork (M_Spawn _) = 5"
| "mwork M_Limit = 4"
| "mwork M_Idle = 3"
| "mwork (M_IdleCheck _) = 3"
| "mwork M_Wait = 2"
| "mwork M_Finalize = 1"
| "mwork M_Return = 0"
| "mwork M_Panic = 0"

definition total :: "(wpc \<Rightarrow> nat) \<Rightarrow> worker list \<Rightarrow> nat" where
  "total f ws = sum_list (map (\<lambda>w. f (wpc w)) ws)"

definition rank :: "state \<Rightarrow> nat \<times> nat \<times> nat" where
  "rank s =
     (nat (MaxPages (options s) - TotalPages (result s)),
      total unfetched (workers s) + (case mpc s of M_Spawn _ \<Rightarrow> 3 | _ \<Rightarrow> 0),
      total wwork (workers s) + 3 * length (urlJobs s) + mwork (mpc s))"

definition rank_less :: "(state \<times> state) set" where
  "rank_less = inv_image (less_than <*lex*> less_than <*lex*> less_than) rank"

text \<open>The worker an event moves, if it moves one.\<close>

definition moves :: "event \<Rightarrow> nat option" where
  "moves e =
     (case e of
        Fetch_Ok i _ \<Rightarrow> Some i
      | Fetch_Err i _ \<Rightarrow> Some i
      | Extract i _ _ \<Rightarrow> Some i
      | Work i \<Rightarrow> Some i
      | _ \<Rightarrow> None)"

text \<open>The first send of the seed happens once, on an empty channel, before any worker.\<close>

definition seed_ok :: "state \<Rightarrow> bool" where
  "seed_ok s \<longleftrightarrow> (mpc s = M_Seed \<longrightarrow> urlJobs s = [] \<and> workers s = [])"

text \<open>An infinite execution: its states, and the events taken from each to the next.\<close>

definition execution :: "golib \<Rightarrow> (nat \<Rightarrow> state) \<Rightarrow> (nat \<Rightarrow> event) \<Rightarrow> bool" where
  "execution lib sts evs \<longleftrightarrow> (\<forall>n. step lib (evs n) (sts n) = Some (sts (Suc n)))"

section \<open>A fetcher that always fails\<close>

text \<open>The events in which the fetcher returns a page.\<close>

definition is_page :: "event \<Rightarrow> bool" where
  "is_page e = (case e of Fetch_Ok _ _ \<Rightarrow> True | _ \<Rightarrow> False)"

definition seed_job :: "state \<Rightarrow> urlJob" where
  "seed_job s = \<lparr>url = targetURL s, depth = 0\<rparr>"

text \<open>
  The states of a crawl in which no fetch has returned a page. Before the worker of the
  seed starts, the seed is the only job and nothing is recorded; afterwards that worker
  is the only one, no job is queued, and the seed is the one failed page as soon as
  the worker has recorded it.
\<close>

definition failing_before :: "state \<Rightarrow> bool" where
  "failing_before s \<longleftrightarrow>
     workers s = [] \<and> FailedPages (result s) = Map.empty \<and>
     (mpc s = M_Spawn (seed_job s) \<and> urlJobs s = [] \<or>
      visitedURLs s = Map.empty \<and> TotalPages (result s) = 0 \<and>
      (mpc s = M_Seed \<and> urlJobs s = [] \<or>
       (mpc s = M_Select \<or> mpc s = M_Idle \<or> (\<exists>n. mpc s = M_IdleCheck n)) \<and>
         urlJobs s = [seed_job s] \<or>
       (mpc s = M_Check (seed_job s) \<or> mpc s = M_Lock (seed_job s)) \<and> urlJobs s = []))"

definition failing_after :: "state \<Rightarrow> bool" where
  "failing_after s \<longleftrightarrow>
     (\<exists>w. workers s = [w] \<and> currentURL w = targetURL s \<and>
        ((wpc w = W_Fetch \<or> (\<exists>err. wpc w = W_Failed err)) \<and>
           FailedPages (result s) = Map.empty \<or>
         (wpc w = W_Leave \<or> wpc w = W_Release \<or> wpc w = W_Done \<or> wpc w = W_Dead) \<and>
           dom (FailedPages (result s)) = {targetURL s}) \<and>
        (mpc s = M_Finalize \<or> mpc s = M_Return \<longrightarrow> wpc w = W_Dead)) \<and>
     urlJobs s = [] \<and>
     (mpc s = M_Limit \<or> mpc s = M_Select \<or> mpc s = M_Idle \<or> (\<exists>n. mpc s = M_IdleCheck n) \<or>
      mpc s = M_Wait \<or> mpc s = M_Finalize \<or> mpc s = M_Return)"

definition failing_ok :: "state \<Rightarrow> bool" where
  "failing_ok s \<longleftrightarrow>
     SuccessfulPages (result s) = 0 \<and> CrawledURLs (result s) = [] \<and>
     (failing_before s \<or> failing_after s)"

section \<open>Fetches\<close>

text \<open>The URLs an event fetches, and those an execution fetches, in order.\<close>

definition fetches :: "event \<Rightarrow> state \<Rightarrow> string list" where
  "fetches e s =
     (case e of
        Fetch_Ok i _ \<Rightarrow> [currentURL (workers s ! i)]
      | Fetch_Err i _ \<Rightarrow> [currentURL (workers s ! i)]
      | _ \<Rightarrow> [])"

fun fetched :: "golib \<Rightarrow> event list \<Rightarrow> state \<Rightarrow> string list" where
  "fetched lib [] s = []"
| "fetched lib (e # es) s =
     (case step lib e s of None \<Rightarrow> [] | Some s' \<Rightarrow> fetches e s @ fetched lib es s')"

section \<open>Two more scenarios\<close>

text \<open>The fetcher fails on the seed: the events of the whole call.\<close>

definition failing_events :: "event list" where
  "failing_events =
     [Sched, Recv, Sched, Sched, Sched, Sched,
      Fetch_Err 0 ''timeout'', Work 0, Work 0, Work 0, Work 0,
      Idle, Sched, Sched, Sched, Sched]"

text \<open>
  The caller's goroutine polls for ever on the timer while the seed waits in the
  channel: the states and the events of this execution.
\<close>

definition scenario_start :: state where
  "scenario_start =
     projr (SpiderWebsite_start plain_golib ''https://a.test/'' (Some scenario_options))"

definition scenario_seeded :: state where
  "scenario_seeded = the (step plain_golib Sched scenario_start)"

fun starving_states :: "nat \<Rightarrow> state" where
  "starving_states 0 = scenario_start"
| "starving_states (Suc n) =
     scenario_seeded
       \<lparr>mpc := (if n mod 3 = 0 then M_Select else if n mod 3 = 1 then M_Idle
                else M_IdleCheck 0)\<rparr>"

fun starving_events :: "nat \<Rightarrow> event" where
  "starving_events 0 = Sched"
| "starving_events (Suc n) = (if n mod 3 = 0 then Idle else Sched)"

section \<open>The steps, one by one\<close>

lemma at_wpc_simps [simp]:
  "options (at_wpc i pc s) = options s"
  "targetURL (at_wpc i pc s) = targetURL s"
  "parsedURL (at_wpc i pc s) = parsedURL s"
  "result (at_wpc i pc s) = result s"
  "visitedURLs (at_wpc i pc s) = visitedURLs s"
  "urlJobs (at_wpc i pc s) = urlJobs s"
  "urlJobs_cap (at_wpc i pc s) = urlJobs_cap s"
  "semaphore (at_wpc i pc s) = semaphore s"
  "activeWorkers (at_wpc i pc s) = activeWorkers s"
  "wg (at_wpc i pc s) = wg s"
  "mpc (at_wpc i pc s) = mpc s"
  "workers (at_wpc i pc s) = (workers s)[i := (workers s ! i)\<lparr>wpc := pc\<rparr>]"
  by (simp_all add: at_wpc_def)

lemma sched_stepE [consumes 1, case_names seed reject pass seen admit spawn stop more
    read finish continue joined finalize]:
  assumes "sched_step s = Some s'"
  obtains
    (seed) "mpc s = M_Seed" "int (length (urlJobs s)) < urlJobs_cap s"
      "s' = s\<lparr>urlJobs := urlJobs s @ [\<lparr>url = targetURL s, depth = 0\<rparr>], mpc := M_Select\<rparr>"
  | (reject) job where "mpc s = M_Check job"
      "MaxPages (options s) \<le> TotalPages (result s) \<or> MaxDepth (options s) < depth job"
      "s' = s\<lparr>mpc := M_Select\<rparr>"
  | (pass) job where "mpc s = M_Check job" "TotalPages (result s) < MaxPages (options s)"
      "depth job \<le> MaxDepth (options s)" "s' = s\<lparr>mpc := M_Lock job\<rparr>"
  | (seen) job where "mpc s = M_Lock job" "lookup (visitedURLs s) (url job)"
      "s' = s\<lparr>mpc := M_Select\<rparr>"
  | (admit) job where "mpc s = M_Lock job" "\<not> lookup (visitedURLs s) (url job)"
      "s' = s\<lparr>visitedURLs := (visitedURLs s)(url job \<mapsto> True),
              result := (result s)\<lparr>TotalPages := TotalPages (result s) + 1\<rparr>,
              mpc := M_Spawn job\<rparr>"
  | (spawn) job where "mpc s = M_Spawn job" "semaphore s < Concurrency (options s)"
      "s' = s\<lparr>semaphore := semaphore s + 1, wg := wg s + 1,
              activeWorkers := activeWorkers s + 1,
              workers := workers s @
                [\<lparr>currentURL = url job, currentDepth = depth job, wpc = W_Fetch\<rparr>],
              mpc := M_Limit\<rparr>"
  | (stop) "mpc s = M_Limit" "MaxPages (options s) \<le> TotalPages (result s)"
      "s' = s\<lparr>mpc := M_Wait\<rparr>"
  | (more) "mpc s = M_Limit" "TotalPages (result s) < MaxPages (options s)"
      "s' = s\<lparr>mpc := M_Select\<rparr>"
  | (read) "mpc s = M_Idle" "s' = s\<lparr>mpc := M_IdleCheck (activeWorkers s)\<rparr>"
  | (finish) "mpc s = M_IdleCheck 0" "urlJobs s = []" "s' = s\<lparr>mpc := M_Wait\<rparr>"
  | (continue) n where "mpc s = M_IdleCheck n" "n \<noteq> 0 \<or> urlJobs s \<noteq> []"
      "s' = s\<lparr>mpc := M_Select\<rparr>"
  | (joined) "mpc s = M_Wait" "wg s = 0" "s' = s\<lparr>mpc := M_Finalize\<rparr>"
  | (finalize) "mpc s = M_Finalize" "s' = s\<lparr>mpc := M_Return\<rparr>"
proof (cases "mpc s")
  case M_Seed
  with assms show ?thesis by (auto simp: sched_step_def split: if_splits intro: seed)
next
  case M_Select
  with assms show ?thesis by (simp add: sched_step_def)
next
  case (M_Check job)
  with assms show ?thesis by (auto simp: sched_step_def split: if_splits intro: reject pass)
next
  case (M_Lock job)
  with assms show ?thesis by (auto simp: sched_step_def split: if_splits intro: seen admit)
next
  case (M_Spawn job)
  with assms show ?thesis by (auto simp: sched_step_def split: if_splits intro: spawn)
next
  case M_Limit
  with assms show ?thesis by (auto simp: sched_step_def split: if_splits intro: stop more)
next
  case M_Idle
  with assms show ?thesis by (auto simp: sched_step_def intro: read)
next
  case (M_IdleCheck n)
  with assms show ?thesis
    by (auto simp: sched_step_def split: if_splits intro: finish continue)
next
  case M_Wait
  with assms show ?thesis by (auto simp: sched_step_def split: if_splits intro: joined)
next
  case M_Finalize
  with assms show ?thesis by (auto simp: sched_step_def intro: finalize)
next
  case M_Return
  with assms show ?thesis by (simp add: sched_step_def)
next
  case M_Panic
  with assms show ?thesis by (simp add: sched_step_def)
qed

lemma work_stepE [consumes 1, case_names failed fetched leaf files enq_end enq drop
    leave release counted panic]:
  assumes "work_step i s = Some s'"
  obtains
    (failed) err where "i < length (workers s)" "wpc (workers s ! i) = W_Failed err"
      "s' = at_wpc i W_Leave
         (s\<lparr>result := (result s)
             \<lparr>FailedPages := (FailedPages (result s))(currentURL (workers s ! i) \<mapsto> err)\<rparr>\<rparr>)"
  | (fetched) crawlResult where "i < length (workers s)"
      "wpc (workers s ! i) = W_Fetched crawlResult"
      "s' = at_wpc i (W_Expand crawlResult)
         (s\<lparr>result := (result s)
             \<lparr>Content := Content (result s) @ [CHR 0x0A, CHR 0x0A] @ ''# URL: '' @
                 currentURL (workers s ! i) @ [CHR 0x0A, CHR 0x0A] @
                 removeMarkdownLinks (cr_Content crawlResult),
              CrawledURLs := CrawledURLs (result s) @ [currentURL (workers s ! i)],
              SuccessfulPages := SuccessfulPages (result s) + 1\<rparr>\<rparr>)"
  | (leaf) crawlResult where "i < length (workers s)"
      "wpc (workers s ! i) = W_Expand crawlResult"
      "MaxDepth (options s) \<le> currentDepth (workers s ! i)" "s' = at_wpc i W_Leave s"
  | (files) crawlableLinks fileLinks where "i < length (workers s)"
      "wpc (workers s ! i) = W_Files crawlableLinks fileLinks"
      "s' = at_wpc i (W_Enqueue crawlableLinks)
         (s\<lparr>result := (result s)
             \<lparr>DetectedFileUrls := DetectedFileUrls (result s) @ fileLinks\<rparr>\<rparr>)"
  | (enq_end) "i < length (workers s)" "wpc (workers s ! i) = W_Enqueue []"
      "s' = at_wpc i W_Leave s"
  | (enq) link links where "i < length (workers s)"
      "wpc (workers s ! i) = W_Enqueue (link # links)"
      "int (length (urlJobs s)) < urlJobs_cap s"
      "s' = at_wpc i (W_Enqueue links)
         (s\<lparr>urlJobs := urlJobs s @
             [\<lparr>url = link, depth = currentDepth (workers s ! i) + 1\<rparr>]\<rparr>)"
  | (drop) link links where "i < length (workers s)"
      "wpc (workers s ! i) = W_Enqueue (link # links)"
      "urlJobs_cap s \<le> int (length (urlJobs s))"
      "s' = at_wpc i (W_Enqueue links) s"
  | (leave) "i < length (workers s)" "wpc (workers s ! i) = W_Leave"
      "s' = at_wpc i W_Release (s\<lparr>activeWorkers := activeWorkers s - 1\<rparr>)"
  | (release) "i < length (workers s)" "wpc (workers s ! i) = W_Release" "0 < semaphore s"
      "s' = at_wpc i W_Done (s\<lparr>semaphore := semaphore s - 1\<rparr>)"
  | (counted) "i < length (workers s)" "wpc (workers s ! i) = W_Done" "0 < wg s"
      "s' = at_wpc i W_Dead (s\<lparr>wg := wg s - 1\<rparr>)"
  | (panic) "i < length (workers s)" "wpc (workers s ! i) = W_Done" "wg s \<le> 0"
      "s' = s\<lparr>mpc := M_Panic\<rparr>"
proof (cases "i < length (workers s)")
  case False
  then show ?thesis using assms by (simp add: work_step_def Let_def)
next
  case True
  show ?thesis
  proof (cases "wpc (workers s ! i)")
    case W_Fetch
    with assms True show ?thesis by (simp add: work_step_def Let_def)
  next
    case (W_Failed err)
    with assms True show ?thesis by (auto simp: work_step_def Let_def intro: failed)
  next
    case (W_Fetched cr)
    with assms True show ?thesis by (auto simp: work_step_def Let_def intro: fetched)
  next
    case (W_Expand cr)
    with assms True show ?thesis by (auto simp: work_step_def Let_def split: if_splits intro: leaf)
  next
    case (W_Files cl fl)
    with assms True show ?thesis by (auto simp: work_step_def Let_def intro: files)
  next
    case (W_Enqueue ls)
    with assms True show ?thesis
      by (cases ls) (auto simp: work_step_def Let_def split: if_splits intro: enq_end enq drop)
  next
    case W_Leave
    with assms True show ?thesis by (auto simp: work_step_def Let_def intro: leave)
  next
    case W_Release
    with assms True show ?thesis
      by (auto simp: work_step_def Let_def split: if_splits intro: release)
  next
    case W_Done
    with assms True show ?thesis
      by (auto simp: work_step_def Let_def split: if_splits intro: counted panic)
  next
    case W_Dead
    with assms True show ?thesis by (simp add: work_step_def Let_def)
  qed
qed

lemma stepE [consumes 1, case_names recv idle sched fetch_ok fetch_err extracted work]:
  assumes "step lib e s = Some s'"
  obtains
    (recv) job jobs where "e = Recv" "mpc s = M_Select" "urlJobs s = job # jobs"
      "s' = s\<lparr>urlJobs := jobs, mpc := M_Check job\<rparr>"
  | (idle) "e = Idle" "mpc s = M_Select" "s' = s\<lparr>mpc := M_Idle\<rparr>"
  | (sched) "e = Sched" "sched_step s = Some s'"
  | (fetch_ok) i crawlResult where "e = Fetch_Ok i crawlResult" "i < length (workers s)"
      "wpc (workers s ! i) = W_Fetch" "s' = at_wpc i (W_Fetched crawlResult) s"
  | (fetch_err) i err where "e = Fetch_Err i err" "i < length (workers s)"
      "wpc (workers s ! i) = W_Fetch" "s' = at_wpc i (W_Failed err) s"
  | (extracted) i crawlResult crawlableLinks fileLinks where
      "e = Extract i crawlableLinks fileLinks" "i < length (workers s)"
      "wpc (workers s ! i) = W_Expand crawlResult"
      "currentDepth (workers s ! i) < MaxDepth (options s)"
      "extractLinks lib crawlResult (currentURL (workers s ! i)) (parsedURL s)
         (CrawlSubDomain (options s)) crawlableLinks fileLinks"
      "s' = at_wpc i (W_Files crawlableLinks fileLinks) s"
  | (work) i where "e = Work i" "work_step i s = Some s'"
proof (cases e)
  case Recv
  with assms show ?thesis
    by (cases "mpc s"; cases "urlJobs s") (auto simp: step_def recv_step_def intro: recv)
next
  case Idle
  with assms show ?thesis by (cases "mpc s") (auto simp: step_def idle_step_def intro: idle)
next
  case Sched
  with assms show ?thesis by (auto simp: step_def intro: sched)
next
  case (Fetch_Ok i cr)
  with assms show ?thesis
    by (cases "wpc (workers s ! i)")
       (auto simp: step_def fetch_step_def split: if_splits intro: fetch_ok)
next
  case (Fetch_Err i err)
  with assms show ?thesis
    by (cases "wpc (workers s ! i)")
       (auto simp: step_def fetch_step_def split: if_splits intro: fetch_err)
next
  case (Extract i cl fl)
  with assms show ?thesis
    by (cases "wpc (workers s ! i)")
       (auto simp: step_def extract_step_def Let_def split: if_splits intro: extracted)
next
  case (Work i)
  with assms show ?thesis by (auto simp: step_def intro: work)
qed

section \<open>Executions and invariants\<close>

lemma exec_append:
  "exec lib (es @ es') s = (case exec lib es s of None \<Rightarrow> None | Some s' \<Rightarrow> exec lib es' s')"
  by (induction es arbitrary: s) (auto split: option.splits)

lemma exec_invariant:
  assumes "\<And>e s s'. P s \<Longrightarrow> step lib e s = Some s' \<Longrightarrow> P s'"
    and "P s" and "exec lib es s = Some s'"
  shows "P s'"
  using assms(2,3)
proof (induction es arbitrary: s)
  case Nil
  then show ?case by simp
next
  case (Cons e es)
  then show ?case using assms(1) by (auto split: option.splits)
qed

lemma step_frame:
  assumes "step lib e s = Some s'"
  shows "same_frame s s'"
  using assms
proof (cases rule: stepE)
  case sched
  from sched(2) show ?thesis by (cases rule: sched_stepE) (auto simp: same_frame_def)
next
  case (work i)
  from work(2) show ?thesis by (cases rule: work_stepE) (auto simp: same_frame_def)
qed (auto simp: same_frame_def)

lemma exec_frame: "exec lib es s = Some s' \<Longrightarrow> same_frame s s'"
proof (induction es arbitrary: s)
  case Nil
  then show ?case by (simp add: same_frame_def)
next
  case (Cons e es)
  then show ?case by (auto split: option.splits dest!: step_frame simp: same_frame_def)
qed

lemma start_fields:
  assumes "SpiderWebsite_start lib target given = Inr s0"
  shows "options s0 = coerce given" "targetURL s0 = target"
    "url_Parse lib target = Some (parsedURL s0)"
    "result s0 = \<lparr>Content = [], CrawledURLs = [], DetectedFileUrls = [],
                  TotalPages = 0, SuccessfulPages = 0, FailedPages = Map.empty\<rparr>"
    "visitedURLs s0 = Map.empty" "urlJobs s0 = []"
    "urlJobs_cap s0 = int64 (MaxPages (coerce given) * 2)" "0 \<le> urlJobs_cap s0"
    "semaphore s0 = 0" "activeWorkers s0 = 0" "wg s0 = 0" "mpc s0 = M_Seed" "workers s0 = []"
    "0 \<le> Concurrency (coerce given)"
  using assms
  by (auto simp: SpiderWebsite_start_def Let_def split: option.splits if_splits)

lemma MaxPages_coerce: "1 \<le> MaxPages (coerce given)"
  by (cases given) (auto simp: coerce_def DefaultSpiderOptions_def Let_def)

subsection \<open>The page limit\<close>

lemma pages_ok_step:
  assumes "pages_ok s" and "step lib e s = Some s'"
  shows "pages_ok s'"
  using assms(2)
proof (cases rule: stepE)
  case sched
  from sched(2) assms(1) show ?thesis by (cases rule: sched_stepE) (auto simp: pages_ok_def)
next
  case (work i)
  from work(2) assms(1) show ?thesis by (cases rule: work_stepE) (auto simp: pages_ok_def)
qed (use assms(1) in \<open>auto simp: pages_ok_def\<close>)

lemma pages_ok_start: "SpiderWebsite_start lib target given = Inr s0 \<Longrightarrow> pages_ok s0"
  using MaxPages_coerce [of given] by (simp add: pages_ok_def start_fields)

lemma pages_ok_exec:
  assumes "SpiderWebsite_start lib target given = Inr s0" and "exec lib es s0 = Some s"
  shows "pages_ok s"
  using pages_ok_step pages_ok_start [OF assms(1)] assms(2) by (rule exec_invariant)

lemma no_admission_at_limit:
  assumes "pages_ok s" and "MaxPages (options s) \<le> TotalPages (result s)"
    and "step lib e s = Some s'"
  shows "TotalPages (result s') = TotalPages (result s) \<and> visitedURLs s' = visitedURLs s"
  using assms(3)
proof (cases rule: stepE)
  case sched
  from sched(2) assms(1,2) show ?thesis by (cases rule: sched_stepE) (auto simp: pages_ok_def)
next
  case (work i)
  from work(2) show ?thesis by (cases rule: work_stepE) auto
qed auto

section \<open>Evaluating the scenario\<close>

lemmas classifier_defs =
  processLinkFromResponse_def sanitizeURL_def sanitizeRegex_FindString_def
  ascii_TrimSpace_def isSpace_def strings_HasPrefix_def strings_HasSuffix_def
  strings_TrimPrefix_def url_char_def IsAbs_def shouldCrawlURL_def ascii_ToLower_def
  lower_byte_def isFileURL_def fileExtensions_def extractLinks_def range_keys_def

lemmas plain_defs =
  plain_golib_def plain_Parse_def plain_parts_def plain_String_def cut_def
  plain_ResolveReference_def

lemma scenario_home_eq:
  "scenario_home =
     \<lparr>cr_Content = ''home'', cr_CrawledURLs = [''https://a.test/''], cr_PagesCrawled = 1,
      cr_PageErrors = Map.empty,
      cr_Links =
        \<lparr>Internal = [\<lparr>Href = ''https://a.test/p1'', Text = ''p1'', BaseDomain = ''a.test''\<rparr>,
                     \<lparr>Href = ''https://a.test/doc.pdf'', Text = ''doc'',
                      BaseDomain = ''a.test''\<rparr>],
         External = []\<rparr>\<rparr>"
  by (simp add: scenario_home_def CrawlWebsite_result_def webcrawl_extractLinks_def
      webcrawl_link_def plain_defs strings_HasPrefix_def ascii_TrimSpace_def isSpace_def)

lemma scenario_p1_eq:
  "scenario_p1 =
     \<lparr>cr_Content = ''one'', cr_CrawledURLs = [''https://a.test/p1''], cr_PagesCrawled = 1,
      cr_PageErrors = Map.empty,
      cr_Links =
        \<lparr>Internal = [\<lparr>Href = ''https://a.test/doc.pdf'', Text = ''doc'',
                      BaseDomain = ''a.test''\<rparr>],
         External = []\<rparr>\<rparr>"
  by (simp add: scenario_p1_def CrawlWebsite_result_def webcrawl_extractLinks_def
      webcrawl_link_def plain_defs strings_HasPrefix_def ascii_TrimSpace_def isSpace_def)

lemmas crawl_defs =
  SpiderWebsite_start_def coerce_def int64_def step_def sched_step_def recv_step_def
  idle_step_def work_step_def fetch_step_def extract_step_def at_wpc_def lookup_def

lemma limit_run:
  "\<exists>s0 s s'. SpiderWebsite_start plain_golib ''https://a.test/''
        (Some (scenario_options\<lparr>MaxPages := 0\<rparr>)) = Inr s0 \<and>
     exec plain_golib [Sched, Recv, Sched, Sched] s0 = Some s \<and>
     MaxPages (options s) = 1 \<and> TotalPages (result s) = 1 \<and>
     step plain_golib Sched s = Some s' \<and> TotalPages (result s') = 1 \<and>
     mpc s' = M_Limit \<and> MaxDepth (options s') = 2 \<and> Concurrency (options s') = 2"
  by (simp add: scenario_options_def crawl_defs plain_defs classifier_defs)

text \<open>
  C1. The number of admitted pages never exceeds the page limit, which is the given
  \<open>MaxPages\<close>, or 1 when that is not positive (100 when no options are given): this
  holds in every state of every execution, for every behaviour of the fetcher. Once the
  counter has reached the limit, no step admits a job; and the test of line 91 sends a
  job that arrives then back to the \<open>select\<close>.
\<close>

theorem total_pages_bounded:
  assumes "SpiderWebsite_start lib target given = Inr s0" and "exec lib es s0 = Some s"
  shows "TotalPages (result s) \<le> MaxPages (options s) \<and>
    MaxPages (options s) =
      (case given of None \<Rightarrow> 100
       | Some opts \<Rightarrow> if MaxPages opts \<le> 0 then 1 else MaxPages opts) \<and>
    (\<forall>e s'. MaxPages (options s) \<le> TotalPages (result s) \<longrightarrow> step lib e s = Some s' \<longrightarrow>
       TotalPages (result s') = TotalPages (result s) \<and> visitedURLs s' = visitedURLs s) \<and>
    (\<forall>t job. mpc t = M_Check job \<longrightarrow> MaxPages (options t) \<le> TotalPages (result t) \<longrightarrow>
       step lib Sched t = Some (t\<lparr>mpc := M_Select\<rparr>))"
proof -
  have ok: "pages_ok s" using assms by (rule pages_ok_exec)
  have "options s = coerce given"
    using exec_frame [OF assms(2)] start_fields(1) [OF assms(1)] by (simp add: same_frame_def)
  then have "MaxPages (options s) =
      (case given of None \<Rightarrow> 100
       | Some opts \<Rightarrow> if MaxPages opts \<le> 0 then 1 else MaxPages opts)"
    by (cases given) (auto simp: coerce_def DefaultSpiderOptions_def Let_def)
  moreover have "TotalPages (result s) \<le> MaxPages (options s)"
    using ok by (simp add: pages_ok_def)
  moreover have "\<forall>e s'. MaxPages (options s) \<le> TotalPages (result s) \<longrightarrow>
      step lib e s = Some s' \<longrightarrow>
      TotalPages (result s') = TotalPages (result s) \<and> visitedURLs s' = visitedURLs s"
    using no_admission_at_limit [OF ok] by blast
  moreover have "\<forall>t job. mpc t = M_Check job \<longrightarrow>
      MaxPages (options t) \<le> TotalPages (result t) \<longrightarrow>
      step lib Sched t = Some (t\<lparr>mpc := M_Select\<rparr>)"
    by (simp add: step_def sched_step_def)
  ultimately show ?thesis by blast
qed

theorem total_pages_bounded_witness:
  "\<exists>s0 s s'. SpiderWebsite_start plain_golib ''https://a.test/''
        (Some (scenario_options\<lparr>MaxPages := 0\<rparr>)) = Inr s0 \<and>
     exec plain_golib [Sched, Recv, Sched, Sched] s0 = Some s \<and>
     TotalPages (result s) \<le> 1 \<and> MaxPages (options s) = 1 \<and>
     step plain_golib Sched s = Some s' \<and> TotalPages (result s') = TotalPages (result s) \<and>
     step plain_golib Sched (s\<lparr>mpc := M_Check \<lparr>url = ''https://a.test/p1'', depth = 1\<rparr>\<rparr>) =
       Some (s\<lparr>mpc := M_Select\<rparr>)"
proof -
  obtain s0 s s' where
    start: "SpiderWebsite_start plain_golib ''https://a.test/''
        (Some (scenario_options\<lparr>MaxPages := 0\<rparr>)) = Inr s0" and
    run: "exec plain_golib [Sched, Recv, Sched, Sched] s0 = Some s" and
    lim: "MaxPages (options s) = 1" "TotalPages (result s) = 1" and
    nxt: "step plain_golib Sched s = Some s'"
    using limit_run by blast
  let ?t = "s\<lparr>mpc := M_Check \<lparr>url = ''https://a.test/p1'', depth = 1\<rparr>\<rparr>"
  note claim = total_pages_bounded [OF start run]
  have "TotalPages (result s) \<le> MaxPages (options s)" using claim by blast
  moreover have "TotalPages (result s') = TotalPages (result s)"
    using claim lim nxt by auto
  moreover have "step plain_golib Sched ?t = Some (?t\<lparr>mpc := M_Select\<rparr>)"
  proof -
    have "mpc ?t = M_Check \<lparr>url = ''https://a.test/p1'', depth = 1\<rparr>" by simp
    moreover have "MaxPages (options ?t) \<le> TotalPages (result ?t)" using lim by simp
    ultimately show ?thesis using claim by blast
  qed
  ultimately show ?thesis using start run lim nxt by auto
qed

text \<open>
  C8. The options are the same in every state of the call: the struct the caller passed,
  with \<open>MaxPages\<close> set to 1 when it was not positive and every other field as given. No
  step writes a field of it.
\<close>

theorem options_immutable:
  assumes "SpiderWebsite_start lib target given = Inr s0" and "exec lib es s0 = Some s"
  shows "options s = coerce given \<and>
    (\<forall>opts. given = Some opts \<longrightarrow>
       options s = opts\<lparr>MaxPages := (if MaxPages opts \<le> 0 then 1 else MaxPages opts)\<rparr> \<and>
       MaxDepth (options s) = MaxDepth opts \<and>
       CrawlSubDomain (options s) = CrawlSubDomain opts \<and>
       Timeout (options s) = Timeout opts \<and>
       Concurrency (options s) = Concurrency opts \<and>
       DelayBetween (options s) = DelayBetween opts) \<and>
    (\<forall>e s'. step lib e s = Some s' \<longrightarrow> options s' = options s)"
proof -
  have "options s = coerce given"
    using exec_frame [OF assms(2)] start_fields(1) [OF assms(1)] by (simp add: same_frame_def)
  moreover have "coerce (Some opts) =
      opts\<lparr>MaxPages := (if MaxPages opts \<le> 0 then 1 else MaxPages opts)\<rparr>" for opts
    by (simp add: coerce_def)
  moreover have "\<forall>e s'. step lib e s = Some s' \<longrightarrow> options s' = options s"
    using step_frame by (auto simp: same_frame_def)
  ultimately show ?thesis by auto
qed

theorem options_immutable_witness:
  "\<exists>s0 s s'. SpiderWebsite_start plain_golib ''https://a.test/''
        (Some (scenario_options\<lparr>MaxPages := 0\<rparr>)) = Inr s0 \<and>
     exec plain_golib [Sched, Recv, Sched, Sched] s0 = Some s \<and>
     options s = scenario_options\<lparr>MaxPages := 1\<rparr> \<and>
     step plain_golib Sched s = Some s' \<and> options s' = scenario_options\<lparr>MaxPages := 1\<rparr>"
proof -
  obtain s0 s s' where
    start: "SpiderWebsite_start plain_golib ''https://a.test/''
        (Some (scenario_options\<lparr>MaxPages := 0\<rparr>)) = Inr s0" and
    run: "exec plain_golib [Sched, Recv, Sched, Sched] s0 = Some s" and
    nxt: "step plain_golib Sched s = Some s'"
    using limit_run by blast
  note claim = options_immutable [OF start run]
  have "options s = scenario_options\<lparr>MaxPages := 1\<rparr>"
    using claim by (simp add: scenario_options_def coerce_def)
  moreover have "options s' = options s" using claim nxt by blast
  ultimately show ?thesis using start run nxt by auto
qed

section \<open>The link classifier\<close>

lemma HasPrefix_prefix: "strings_HasPrefix s p \<longleftrightarrow> prefix p s"
  by (auto simp: strings_HasPrefix_def prefix_def)
     (metis append_eq_conv_conj)

lemma HasSuffix_suffix: "strings_HasSuffix s x \<longleftrightarrow> suffix x s"
proof
  assume "strings_HasSuffix s x"
  then have "s = take (length s - length x) s @ x"
    by (metis append_take_drop_id strings_HasSuffix_def)
  then show "suffix x s" by (metis suffixI)
next
  assume "suffix x s"
  then obtain zs where "s = zs @ x" by (auto simp: suffix_def)
  then show "strings_HasSuffix s x" by (simp add: strings_HasSuffix_def)
qed

lemma TrimPrefix_www: "strings_TrimPrefix h ''www.'' = strip_www h"
  by (simp add: strings_TrimPrefix_def strip_www_def HasPrefix_prefix eval_nat_numeral)

lemma HasSuffix_dot: "strings_HasSuffix h (''.'' @ k) \<longleftrightarrow> dot_suffix k h"
  unfolding HasSuffix_suffix dot_suffix_def suffix_def by simp

lemma shouldCrawlURL_in_scope:
  "shouldCrawlURL lib target base crawlSubDomain \<longleftrightarrow>
   in_scope (strings_ToLower lib (Host target)) (strings_ToLower lib (Host base)) crawlSubDomain"
  unfolding shouldCrawlURL_def in_scope_def Let_def TrimPrefix_www HasSuffix_dot by auto

lemma shouldCrawlURL_hosts:
  assumes "strings_ToLower lib (Host target) = h" and "strings_ToLower lib (Host base) = k"
  shows "shouldCrawlURL lib target base crawlSubDomain \<longleftrightarrow>
         h = k \<or> crawlSubDomain \<and> (strings_HasSuffix (strings_TrimPrefix h ''www.'')
                                       (''.'' @ strings_TrimPrefix k ''www.'') \<or>
                                     strings_HasSuffix (strings_TrimPrefix k ''www.'')
                                       (''.'' @ strings_TrimPrefix h ''www.''))"
  using assms by (auto simp: shouldCrawlURL_def Let_def)

lemma ToLower_examples:
  "ascii_ToLower ''sub.example.com'' = ''sub.example.com''"
  "ascii_ToLower ''example.com'' = ''example.com''"
  "ascii_ToLower ''WWW.Example.com'' = ''www.example.com''"
  "ascii_ToLower ''www.example.COM'' = ''www.example.com''"
  "ascii_ToLower ''blog.example.com'' = ''blog.example.com''"
  "ascii_ToLower ''www.example.com'' = ''www.example.com''"
  by code_simp+

text \<open>
  C7. \<open>shouldCrawlURL\<close> accepts exactly the links that the spec's rule of scope accepts
  on the hosts in lower case, as \<open>strings.ToLower\<close> gives them; without \<open>crawlSubDomain\<close>
  exactly the links whose host in lower case is the seed's. Where \<open>strings.ToLower\<close>
  leaves the three lower-case names as they are, \<open>sub.example.com\<close> and \<open>example.com\<close>
  accept each other with \<open>crawlSubDomain\<close> and do not without it, and
  \<open>www.example.com\<close> and \<open>example.com\<close>, of which neither is a dot-suffix of the other
  once \<open>www.\<close> is stripped, accept each other with neither setting.
\<close>

theorem scope_rule:
  "(shouldCrawlURL lib target base crawlSubDomain \<longleftrightarrow>
      in_scope (strings_ToLower lib (Host target)) (strings_ToLower lib (Host base))
        crawlSubDomain) \<and>
   (shouldCrawlURL lib target base False \<longleftrightarrow>
      strings_ToLower lib (Host target) = strings_ToLower lib (Host base)) \<and>
   (strings_ToLower lib ''sub.example.com'' = ''sub.example.com'' \<longrightarrow>
    strings_ToLower lib ''example.com'' = ''example.com'' \<longrightarrow>
      shouldCrawlURL lib (u\<lparr>Host := ''sub.example.com''\<rparr>) (v\<lparr>Host := ''example.com''\<rparr>) True \<and>
      shouldCrawlURL lib (v\<lparr>Host := ''example.com''\<rparr>) (u\<lparr>Host := ''sub.example.com''\<rparr>) True \<and>
      \<not> shouldCrawlURL lib (u\<lparr>Host := ''sub.example.com''\<rparr>) (v\<lparr>Host := ''example.com''\<rparr>) False \<and>
      \<not> shouldCrawlURL lib (v\<lparr>Host := ''example.com''\<rparr>) (u\<lparr>Host := ''sub.example.com''\<rparr>) False) \<and>
   (strings_ToLower lib ''www.example.com'' = ''www.example.com'' \<longrightarrow>
    strings_ToLower lib ''example.com'' = ''example.com'' \<longrightarrow>
      \<not> shouldCrawlURL lib (u\<lparr>Host := ''www.example.com''\<rparr>) (v\<lparr>Host := ''example.com''\<rparr>)
          crawlSubDomain \<and>
      \<not> shouldCrawlURL lib (v\<lparr>Host := ''example.com''\<rparr>) (u\<lparr>Host := ''www.example.com''\<rparr>)
          crawlSubDomain)"
proof (intro conjI impI)
  show "shouldCrawlURL lib target base crawlSubDomain \<longleftrightarrow>
      in_scope (strings_ToLower lib (Host target)) (strings_ToLower lib (Host base))
        crawlSubDomain"
    by (rule shouldCrawlURL_in_scope)
  show "shouldCrawlURL lib target base False \<longleftrightarrow>
      strings_ToLower lib (Host target) = strings_ToLower lib (Host base)"
    by (simp add: shouldCrawlURL_def Let_def)
next
  assume l: "strings_ToLower lib ''sub.example.com'' = ''sub.example.com''"
    "strings_ToLower lib ''example.com'' = ''example.com''"
  show "shouldCrawlURL lib (u\<lparr>Host := ''sub.example.com''\<rparr>) (v\<lparr>Host := ''example.com''\<rparr>) True"
    by (subst shouldCrawlURL_hosts [OF _ _, of _ _ "''sub.example.com''" _ "''example.com''"])
       (simp_all add: l strings_TrimPrefix_def strings_HasPrefix_def strings_HasSuffix_def)
  show "shouldCrawlURL lib (v\<lparr>Host := ''example.com''\<rparr>) (u\<lparr>Host := ''sub.example.com''\<rparr>) True"
    by (subst shouldCrawlURL_hosts [OF _ _, of _ _ "''example.com''" _ "''sub.example.com''"])
       (simp_all add: l strings_TrimPrefix_def strings_HasPrefix_def strings_HasSuffix_def)
  show "\<not> shouldCrawlURL lib (u\<lparr>Host := ''sub.example.com''\<rparr>) (v\<lparr>Host := ''example.com''\<rparr>) False"
    by (subst shouldCrawlURL_hosts [OF _ _, of _ _ "''sub.example.com''" _ "''example.com''"])
       (simp_all add: l)
  show "\<not> shouldCrawlURL lib (v\<lparr>Host := ''example.com''\<rparr>) (u\<lparr>Host := ''sub.example.com''\<rparr>) False"
    by (subst shouldCrawlURL_hosts [OF _ _, of _ _ "''example.com''" _ "''sub.example.com''"])
       (simp_all add: l)
next
  assume l: "strings_ToLower lib ''www.example.com'' = ''www.example.com''"
    "strings_ToLower lib ''example.com'' = ''example.com''"
  show "\<not> shouldCrawlURL lib (u\<lparr>Host := ''www.example.com''\<rparr>) (v\<lparr>Host := ''example.com''\<rparr>)
          crawlSubDomain"
    by (subst shouldCrawlURL_hosts [OF _ _, of _ _ "''www.example.com''" _ "''example.com''"])
       (simp_all add: l strings_TrimPrefix_def strings_HasPrefix_def strings_HasSuffix_def)
  show "\<not> shouldCrawlURL lib (v\<lparr>Host := ''example.com''\<rparr>) (u\<lparr>Host := ''www.example.com''\<rparr>)
          crawlSubDomain"
    by (subst shouldCrawlURL_hosts [OF _ _, of _ _ "''example.com''" _ "''www.example.com''"])
       (simp_all add: l strings_TrimPrefix_def strings_HasPrefix_def strings_HasSuffix_def)
qed

theorem scope_rule_witness:
  "shouldCrawlURL plain_golib (the (plain_Parse ''https://WWW.Example.com/a''))
     (the (plain_Parse ''https://www.example.COM/'')) False \<and>
   shouldCrawlURL plain_golib (the (plain_Parse ''https://blog.example.com/a''))
     (the (plain_Parse ''https://www.example.com/'')) True \<and>
   shouldCrawlURL plain_golib (the (plain_Parse ''https://sub.example.com/a''))
     (the (plain_Parse ''https://example.com/'')) True \<and>
   \<not> shouldCrawlURL plain_golib (the (plain_Parse ''https://sub.example.com/a''))
     (the (plain_Parse ''https://example.com/'')) False \<and>
   \<not> shouldCrawlURL plain_golib (the (plain_Parse ''https://www.example.com/a''))
     (the (plain_Parse ''https://example.com/'')) True"
proof -
  have h: "Host (the (plain_Parse ''https://WWW.Example.com/a'')) = ''WWW.Example.com''"
      "Host (the (plain_Parse ''https://www.example.COM/'')) = ''www.example.COM''"
      "Host (the (plain_Parse ''https://blog.example.com/a'')) = ''blog.example.com''"
      "Host (the (plain_Parse ''https://www.example.com/'')) = ''www.example.com''"
      "Host (the (plain_Parse ''https://www.example.com/a'')) = ''www.example.com''"
      "Host (the (plain_Parse ''https://sub.example.com/a'')) = ''sub.example.com''"
      "Host (the (plain_Parse ''https://example.com/'')) = ''example.com''"
    by (simp_all add: plain_Parse_def plain_parts_def cut_def strings_HasPrefix_def)
  have l: "strings_ToLower plain_golib = ascii_ToLower"
    by (simp add: plain_golib_def)
  have 2: "in_scope ''blog.example.com'' ''www.example.com'' True"
    unfolding in_scope_def dot_suffix_def strip_www_def
    by (simp add: exI [of _ "''blog''"])
  let ?a = "the (plain_Parse ''https://WWW.Example.com/a'')"
  let ?b = "the (plain_Parse ''https://www.example.COM/'')"
  let ?c = "the (plain_Parse ''https://blog.example.com/a'')"
  let ?d = "the (plain_Parse ''https://www.example.com/'')"
  let ?e = "the (plain_Parse ''https://www.example.com/a'')"
  let ?f = "the (plain_Parse ''https://example.com/'')"
  let ?g = "the (plain_Parse ''https://sub.example.com/a'')"
  note first = scope_rule [of plain_golib ?a ?b False ?g ?f, THEN conjunct2, THEN conjunct1]
  note rule = scope_rule [of plain_golib ?c ?d True ?g ?f, THEN conjunct1]
  note sub = scope_rule [of plain_golib ?c ?d True ?g ?f, THEN conjunct2, THEN conjunct2,
      THEN conjunct1, THEN mp, THEN mp]
  note www = scope_rule [of plain_golib ?c ?d True ?e ?f, THEN conjunct2, THEN conjunct2,
      THEN conjunct2, THEN mp, THEN mp]
  have g: "?g\<lparr>Host := ''sub.example.com''\<rparr> = ?g" "?f\<lparr>Host := ''example.com''\<rparr> = ?f"
      "?e\<lparr>Host := ''www.example.com''\<rparr> = ?e"
    by (simp_all add: plain_Parse_def plain_parts_def cut_def strings_HasPrefix_def)
  have "shouldCrawlURL plain_golib ?a ?b False"
    using first by (simp add: h l ToLower_examples)
  moreover have "shouldCrawlURL plain_golib ?c ?d True"
    using rule 2 by (simp add: h l ToLower_examples)
  moreover have "shouldCrawlURL plain_golib ?g ?f True \<and> \<not> shouldCrawlURL plain_golib ?g ?f False"
    using sub by (simp add: g l ToLower_examples)
  moreover have "\<not> shouldCrawlURL plain_golib ?e ?f True"
    using www by (simp add: g l ToLower_examples)
  ultimately show ?thesis by blast
qed

lemma processLink_adds:
  "processLinkFromResponse lib href text baseURL pb sub (c, f) =
     (c ++ fst (processLinkFromResponse lib href text baseURL pb sub (Map.empty, Map.empty)),
      f ++ snd (processLinkFromResponse lib href text baseURL pb sub (Map.empty, Map.empty)))"
  by (simp add: processLinkFromResponse_def Let_def split: option.splits)

lemma extractLinks_sets_adds:
  "extractLinks_sets lib links baseURL pb sub (c, f) =
     (c ++ fst (extractLinks_sets lib links baseURL pb sub (Map.empty, Map.empty)),
      f ++ snd (extractLinks_sets lib links baseURL pb sub (Map.empty, Map.empty)))"
proof (induction links arbitrary: c f)
  case Nil
  then show ?case by simp
next
  case (Cons link links)
  let ?P = "processLinkFromResponse lib (strings_TrimSpace lib (Href link)) (Text link) baseURL
              pb sub (Map.empty, Map.empty)"
  let ?E = "extractLinks_sets lib links baseURL pb sub (Map.empty, Map.empty)"
  show ?case
  proof (cases "strings_TrimSpace lib (Href link) = []")
    case True
    then show ?thesis using Cons.IH [of c f] by simp
  next
    case False
    have 1: "extractLinks_sets lib (link # links) baseURL pb sub (c, f) =
        extractLinks_sets lib links baseURL pb sub (c ++ fst ?P, f ++ snd ?P)"
      using False processLink_adds [of lib _ _ baseURL pb sub c f] by (simp add: Let_def)
    have 2: "extractLinks_sets lib (link # links) baseURL pb sub (Map.empty, Map.empty) =
        extractLinks_sets lib links baseURL pb sub (fst ?P, snd ?P)"
      using False by (simp add: Let_def)
    show ?thesis
      unfolding 1 2
      using Cons.IH [of "c ++ fst ?P" "f ++ snd ?P"] Cons.IH [of "fst ?P" "snd ?P"]
      by simp
  qed
qed

lemma map_add_twice: "(m ++ n) ++ n = m ++ (n :: 'a \<rightharpoonup> 'b)"
  by (rule ext) (simp add: map_add_def split: option.splits)

lemma extractLinks_sets_idem:
  "extractLinks_sets lib links baseURL pb sub
     (extractLinks_sets lib links baseURL pb sub sets) =
   extractLinks_sets lib links baseURL pb sub sets"
proof (cases sets)
  case (Pair c f)
  let ?E = "extractLinks_sets lib links baseURL pb sub (Map.empty, Map.empty)"
  have 1: "extractLinks_sets lib links baseURL pb sub (c, f) = (c ++ fst ?E, f ++ snd ?E)"
    by (rule extractLinks_sets_adds)
  have 2: "extractLinks_sets lib links baseURL pb sub (c ++ fst ?E, f ++ snd ?E) =
      ((c ++ fst ?E) ++ fst ?E, (f ++ snd ?E) ++ snd ?E)"
    by (rule extractLinks_sets_adds)
  show ?thesis unfolding Pair 1 2 by (simp add: map_add_twice)
qed

text \<open>
  C9. The classifier is a function of the page, the base URL, the seed's URL and the
  flag: two calls of \<open>extractLinks\<close> on the same page return the same crawlable URLs and
  the same file URLs, whatever the order in which each call visits its sets; and
  classifying the page again into the sets of a first pass leaves them as they are.
\<close>

theorem classification_deterministic:
  assumes "extractLinks lib page baseURL pb sub crawlable fileLinks"
    and "extractLinks lib page baseURL pb sub crawlable' fileLinks'"
  shows "set crawlable = set crawlable' \<and> set fileLinks = set fileLinks' \<and>
    length crawlable = length crawlable' \<and> length fileLinks = length fileLinks' \<and>
    extractLinks_sets lib (Internal (cr_Links page)) baseURL pb sub
      (extractLinks_sets lib (Internal (cr_Links page)) baseURL pb sub sets) =
    extractLinks_sets lib (Internal (cr_Links page)) baseURL pb sub sets"
proof -
  obtain c f where cf: "extractLinks_sets lib (Internal (cr_Links page)) baseURL pb sub
      (Map.empty, Map.empty) = (c, f)"
    by (cases "extractLinks_sets lib (Internal (cr_Links page)) baseURL pb sub
      (Map.empty, Map.empty)")
  have a: "range_keys c crawlable" "range_keys f fileLinks"
      "range_keys c crawlable'" "range_keys f fileLinks'"
    using assms by (simp_all add: extractLinks_def cf)
  have "set crawlable = set crawlable'" "set fileLinks = set fileLinks'"
    using a by (simp_all add: range_keys_def)
  moreover have "length crawlable = length crawlable'" "length fileLinks = length fileLinks'"
    using a by (metis range_keys_def distinct_card)+
  ultimately show ?thesis using extractLinks_sets_idem by simp
qed

theorem classification_deterministic_witness:
  "extractLinks plain_golib scenario_home ''https://a.test/'' (the (plain_Parse ''https://a.test/''))
     False [''https://a.test/p1''] [''https://a.test/doc.pdf''] \<and>
   extractLinks_sets plain_golib (Internal (cr_Links scenario_home)) ''https://a.test/''
     (the (plain_Parse ''https://a.test/'')) False
     ([''https://a.test/p1'' \<mapsto> True], [''https://a.test/doc.pdf'' \<mapsto> True]) =
   ([''https://a.test/p1'' \<mapsto> True], [''https://a.test/doc.pdf'' \<mapsto> True])"
proof -
  let ?pb = "the (plain_Parse ''https://a.test/'')"
  have sets: "extractLinks_sets plain_golib (Internal (cr_Links scenario_home)) ''https://a.test/''
      ?pb False (Map.empty, Map.empty) =
      ([''https://a.test/p1'' \<mapsto> True], [''https://a.test/doc.pdf'' \<mapsto> True])"
    by (simp add: scenario_home_eq classifier_defs plain_defs)
  have run: "extractLinks plain_golib scenario_home ''https://a.test/'' ?pb False
      [''https://a.test/p1''] [''https://a.test/doc.pdf'']"
    by (simp add: extractLinks_def sets range_keys_def)
  from classification_deterministic [OF run run, of "(Map.empty, Map.empty)"]
  show ?thesis using run by (simp add: sets)
qed

subsection \<open>Only http and https\<close>

lemma FindString_cases:
  "sanitizeRegex_FindString s = [] \<or>
   strings_HasPrefix (sanitizeRegex_FindString s) ''http://'' \<or>
   strings_HasPrefix (sanitizeRegex_FindString s) ''https://''"
  by (simp add: sanitizeRegex_FindString_def Let_def strings_HasPrefix_def)

lemma FindString_no_scheme:
  "\<not> strings_HasPrefix s ''http://'' \<Longrightarrow> \<not> strings_HasPrefix s ''https://'' \<Longrightarrow>
   sanitizeRegex_FindString s = []"
  by (simp add: sanitizeRegex_FindString_def)

lemma processLink_no_scheme:
  assumes "\<not> strings_HasPrefix (strings_TrimSpace lib href) ''http://''"
    and "\<not> strings_HasPrefix (strings_TrimSpace lib href) ''https://''"
  shows "processLinkFromResponse lib href label baseURL pb sub sets = sets"
  using FindString_no_scheme [OF assms]
  by (cases sets) (simp add: processLinkFromResponse_def sanitizeURL_def)

lemma processLink_shape:
  "processLinkFromResponse lib href label baseURL pb sub (c, f) = (c, f) \<or>
   (\<exists>parsed resolved.
      sanitizeURL lib href \<noteq> [] \<and> url_Parse lib (sanitizeURL lib href) = Some parsed \<and>
      (IsAbs parsed \<longrightarrow> resolved = parsed) \<and> shouldCrawlURL lib resolved pb sub \<and>
      processLinkFromResponse lib href label baseURL pb sub (c, f) =
        (if isFileURL lib (resolved\<lparr>Fragment := []\<rparr>)
         then (c, f(url_String lib (resolved\<lparr>Fragment := []\<rparr>) \<mapsto> True))
         else (c(url_String lib (resolved\<lparr>Fragment := []\<rparr>) \<mapsto> True), f)))"
proof (cases "href = [] \<or> strings_HasPrefix href ''#'' \<or> sanitizeURL lib href = []")
  case True
  then show ?thesis by (auto simp: processLinkFromResponse_def)
next
  case False
  note nonempty = this
  show ?thesis
  proof (cases "url_Parse lib (sanitizeURL lib href)")
    case None
    then show ?thesis using nonempty by (simp add: processLinkFromResponse_def)
  next
    case (Some parsed)
    show ?thesis
    proof (cases "IsAbs parsed")
      case True
      show ?thesis
      proof (cases "shouldCrawlURL lib parsed pb sub")
        case True
        have "processLinkFromResponse lib href label baseURL pb sub (c, f) =
          (if isFileURL lib (parsed\<lparr>Fragment := []\<rparr>)
           then (c, f(url_String lib (parsed\<lparr>Fragment := []\<rparr>) \<mapsto> True))
           else (c(url_String lib (parsed\<lparr>Fragment := []\<rparr>) \<mapsto> True), f))"
          using nonempty Some \<open>IsAbs parsed\<close> True
          by (simp add: processLinkFromResponse_def Let_def)
        then show ?thesis using nonempty Some True by blast
      next
        case False
        then show ?thesis using nonempty Some True
          by (simp add: processLinkFromResponse_def)
      qed
    next
      case False
      note rel = this
      show ?thesis
      proof (cases "url_Parse lib baseURL")
        case None
        then show ?thesis using nonempty Some rel by (simp add: processLinkFromResponse_def)
      next
        case (Some base)
        let ?r = "url_ResolveReference lib base parsed"
        show ?thesis
        proof (cases "shouldCrawlURL lib ?r pb sub")
          case True
          have "processLinkFromResponse lib href label baseURL pb sub (c, f) =
            (if isFileURL lib (?r\<lparr>Fragment := []\<rparr>)
             then (c, f(url_String lib (?r\<lparr>Fragment := []\<rparr>) \<mapsto> True))
             else (c(url_String lib (?r\<lparr>Fragment := []\<rparr>) \<mapsto> True), f))"
            using nonempty \<open>url_Parse lib (sanitizeURL lib href) = Some parsed\<close> Some rel True
            by (simp add: processLinkFromResponse_def Let_def)
          then show ?thesis
            using nonempty \<open>url_Parse lib (sanitizeURL lib href) = Some parsed\<close> rel True by blast
        next
          case False
          then show ?thesis
            using nonempty \<open>url_Parse lib (sanitizeURL lib href) = Some parsed\<close> Some rel
            by (simp add: processLinkFromResponse_def)
        qed
      qed
    qed
  qed
qed

lemma processLink_web:
  assumes lib: "keeps_scheme lib"
    and c: "\<forall>k \<in> dom c. web_url k" and f: "\<forall>k \<in> dom f. web_url k"
    and p: "processLinkFromResponse lib href label baseURL pb sub (c, f) = (c', f')"
  shows "(\<forall>k \<in> dom c'. web_url k) \<and> (\<forall>k \<in> dom f'. web_url k)"
  using processLink_shape [of lib href label baseURL pb sub c f]
proof (elim disjE exE conjE)
  assume "processLinkFromResponse lib href label baseURL pb sub (c, f) = (c, f)"
  then show ?thesis using p c f by simp
next
  fix parsed resolved
  assume nonempty: "sanitizeURL lib href \<noteq> []"
    and parsed: "url_Parse lib (sanitizeURL lib href) = Some parsed"
    and abs: "IsAbs parsed \<longrightarrow> resolved = parsed"
    and res: "processLinkFromResponse lib href label baseURL pb sub (c, f) =
        (if isFileURL lib (resolved\<lparr>Fragment := []\<rparr>)
         then (c, f(url_String lib (resolved\<lparr>Fragment := []\<rparr>) \<mapsto> True))
         else (c(url_String lib (resolved\<lparr>Fragment := []\<rparr>) \<mapsto> True), f))"
  have "strings_HasPrefix (sanitizeURL lib href) ''http://'' \<or>
        strings_HasPrefix (sanitizeURL lib href) ''https://''"
    using nonempty FindString_cases [of "strings_TrimSpace lib href"] by (simp add: sanitizeURL_def)
  then have scheme: "Scheme parsed = ''http'' \<or> Scheme parsed = ''https''"
    using lib parsed unfolding keeps_scheme_def by blast
  then have "IsAbs parsed" by (auto simp: IsAbs_def)
  then have r: "resolved = parsed" using abs by simp
  let ?u = "parsed\<lparr>Fragment := []\<rparr>"
  have "Scheme ?u \<noteq> []" using scheme by auto
  then have "strings_HasPrefix (url_String lib ?u) (Scheme ?u @ '':'')"
    using lib unfolding keeps_scheme_def by blast
  then have web: "web_url (url_String lib ?u)"
    using scheme by (auto simp: web_url_def)
  have "(c', f') = (c, f(url_String lib ?u \<mapsto> True)) \<or>
        (c', f') = (c(url_String lib ?u \<mapsto> True), f)"
    using p res r by (cases "isFileURL lib ?u") simp_all
  then have "dom c' \<subseteq> insert (url_String lib ?u) (dom c) \<and>
      dom f' \<subseteq> insert (url_String lib ?u) (dom f)"
    by auto
  then show ?thesis using c f web by blast
qed

lemma extractLinks_sets_web:
  assumes lib: "keeps_scheme lib"
  shows "(\<forall>k \<in> dom c. web_url k) \<Longrightarrow> (\<forall>k \<in> dom f. web_url k) \<Longrightarrow>
    extractLinks_sets lib links baseURL pb sub (c, f) = (c', f') \<Longrightarrow>
    (\<forall>k \<in> dom c'. web_url k) \<and> (\<forall>k \<in> dom f'. web_url k)"
proof (induction links arbitrary: c f)
  case Nil
  then show ?case by simp
next
  case (Cons link links)
  show ?case
  proof (cases "strings_TrimSpace lib (Href link) = []")
    case True
    with Cons.prems(3) have "extractLinks_sets lib links baseURL pb sub (c, f) = (c', f')"
      by simp
    then show ?thesis by (rule Cons.IH [OF Cons.prems(1,2)])
  next
    case False
    obtain c1 f1 where p: "processLinkFromResponse lib (strings_TrimSpace lib (Href link))
        (Text link) baseURL pb sub (c, f) = (c1, f1)"
      by (cases "processLinkFromResponse lib (strings_TrimSpace lib (Href link))
        (Text link) baseURL pb sub (c, f)")
    have w: "(\<forall>k \<in> dom c1. web_url k) \<and> (\<forall>k \<in> dom f1. web_url k)"
      using processLink_web [OF lib Cons.prems(1,2) p] .
    have "extractLinks_sets lib links baseURL pb sub (c1, f1) = (c', f')"
      using Cons.prems(3) False p by (simp add: Let_def)
    then show ?thesis by (rule Cons.IH [OF conjunct1 [OF w] conjunct2 [OF w]])
  qed
qed

lemma HasPrefix_nth: "strings_HasPrefix s p \<Longrightarrow> i < length p \<Longrightarrow> s ! i = p ! i"
  by (metis nth_take strings_HasPrefix_def)

lemma plain_keeps_scheme: "keeps_scheme plain_golib"
proof -
  have "\<not> (strings_HasPrefix s ''http://'' \<and> strings_HasPrefix s ''https://'')" for s
  proof
    assume a: "strings_HasPrefix s ''http://'' \<and> strings_HasPrefix s ''https://''"
    have "s ! 4 = ''http://'' ! 4" using a by (intro HasPrefix_nth) simp_all
    moreover have "s ! 4 = ''https://'' ! 4" using a by (intro HasPrefix_nth) simp_all
    ultimately show False by simp
  qed
  then have "plain_Parse s = Some u \<Longrightarrow>
      (strings_HasPrefix s ''http://'' \<longrightarrow> Scheme u = ''http'') \<and>
      (strings_HasPrefix s ''https://'' \<longrightarrow> Scheme u = ''https'')" for s u
    by (auto simp: plain_Parse_def plain_parts_def split: if_splits prod.splits)
  moreover have "Scheme u \<noteq> [] \<Longrightarrow> strings_HasPrefix (plain_String u) (Scheme u @ '':'')"
    for u
    by (simp add: plain_String_def strings_HasPrefix_def)
  ultimately show ?thesis by (simp add: keeps_scheme_def plain_golib_def)
qed

text \<open>
  C10. \<open>sanitizeURL\<close> returns the empty string or a string that starts with \<open>http://\<close>
  or \<open>https://\<close>. A link whose href, trimmed by \<open>strings.TrimSpace\<close>, starts with
  neither, a relative path included, changes neither set. Given the two facts of net/url, every URL that
  \<open>extractLinks\<close> returns, crawlable or file, starts with the scheme \<open>http:\<close> or \<open>https:\<close>.
\<close>

theorem only_http_links:
  "(sanitizeURL lib rawURL = [] \<or> strings_HasPrefix (sanitizeURL lib rawURL) ''http://'' \<or>
      strings_HasPrefix (sanitizeURL lib rawURL) ''https://'') \<and>
   (\<not> strings_HasPrefix (strings_TrimSpace lib href) ''http://'' \<longrightarrow>
    \<not> strings_HasPrefix (strings_TrimSpace lib href) ''https://'' \<longrightarrow>
      processLinkFromResponse lib href label baseURL pb sub sets = sets) \<and>
   (keeps_scheme lib \<longrightarrow> extractLinks lib page baseURL pb sub crawlable fileLinks \<longrightarrow>
      (\<forall>k \<in> set crawlable \<union> set fileLinks.
         strings_HasPrefix k ''http:'' \<or> strings_HasPrefix k ''https:''))"
proof -
  have "keeps_scheme lib \<longrightarrow> extractLinks lib page baseURL pb sub crawlable fileLinks \<longrightarrow>
      (\<forall>k \<in> set crawlable \<union> set fileLinks.
         strings_HasPrefix k ''http:'' \<or> strings_HasPrefix k ''https:'')"
  proof (intro impI)
    assume lib: "keeps_scheme lib"
      and ex: "extractLinks lib page baseURL pb sub crawlable fileLinks"
    obtain c f where cf: "extractLinks_sets lib (Internal (cr_Links page)) baseURL pb sub
        (Map.empty, Map.empty) = (c, f)"
      by (cases "extractLinks_sets lib (Internal (cr_Links page)) baseURL pb sub
        (Map.empty, Map.empty)")
    have "(\<forall>k \<in> dom c. web_url k) \<and> (\<forall>k \<in> dom f. web_url k)"
      using extractLinks_sets_web [OF lib _ _ cf] by simp
    moreover have "set crawlable = dom c" "set fileLinks = dom f"
      using ex by (simp_all add: extractLinks_def cf range_keys_def)
    ultimately show "\<forall>k \<in> set crawlable \<union> set fileLinks.
        strings_HasPrefix k ''http:'' \<or> strings_HasPrefix k ''https:''"
      by (auto simp: web_url_def)
  qed
  moreover have "sanitizeURL lib rawURL = [] \<or> strings_HasPrefix (sanitizeURL lib rawURL) ''http://'' \<or>
      strings_HasPrefix (sanitizeURL lib rawURL) ''https://''"
    using FindString_cases [of "strings_TrimSpace lib rawURL"] by (simp add: sanitizeURL_def)
  moreover have "\<not> strings_HasPrefix (strings_TrimSpace lib href) ''http://'' \<longrightarrow>
    \<not> strings_HasPrefix (strings_TrimSpace lib href) ''https://'' \<longrightarrow>
      processLinkFromResponse lib href label baseURL pb sub sets = sets"
    using processLink_no_scheme by blast
  ultimately show ?thesis by blast
qed


theorem only_http_links_witness:
  "sanitizeURL plain_golib ''  https://a.test/x?download=1)(pdf) '' =
     ''https://a.test/x?download=1'' \<and>
   processLinkFromResponse plain_golib ''/p1'' ''p1'' ''https://a.test/''
     (the (plain_Parse ''https://a.test/'')) True (Map.empty, Map.empty) =
     (Map.empty, Map.empty) \<and>
   keeps_scheme plain_golib \<and>
   extractLinks plain_golib scenario_home ''https://a.test/'' (the (plain_Parse ''https://a.test/''))
     False [''https://a.test/p1''] [''https://a.test/doc.pdf''] \<and>
   (strings_HasPrefix ''https://a.test/p1'' ''http:'' \<or>
    strings_HasPrefix ''https://a.test/p1'' ''https:'') \<and>
   (strings_HasPrefix ''https://a.test/doc.pdf'' ''http:'' \<or>
    strings_HasPrefix ''https://a.test/doc.pdf'' ''https:'')"
proof -
  let ?pb = "the (plain_Parse ''https://a.test/'')"
  have s: "sanitizeURL plain_golib ''  https://a.test/x?download=1)(pdf) '' =
      ''https://a.test/x?download=1''"
    by (simp add: classifier_defs plain_golib_def)
  have t: "\<not> strings_HasPrefix (strings_TrimSpace plain_golib ''/p1'') ''http://''"
      "\<not> strings_HasPrefix (strings_TrimSpace plain_golib ''/p1'') ''https://''"
    by (simp_all add: classifier_defs plain_golib_def)
  have run: "extractLinks plain_golib scenario_home ''https://a.test/'' ?pb False
      [''https://a.test/p1''] [''https://a.test/doc.pdf'']"
    by (simp add: scenario_home_eq classifier_defs plain_defs)
  note claim = only_http_links [where href = "''/p1''" and lib = plain_golib and
      label = "''p1''" and baseURL = "''https://a.test/''" and pb = ?pb and
      page = scenario_home and crawlable = "[''https://a.test/p1'']" and
      fileLinks = "[''https://a.test/doc.pdf'']"]
  have "processLinkFromResponse plain_golib ''/p1'' ''p1'' ''https://a.test/'' ?pb True
      (Map.empty, Map.empty) = (Map.empty, Map.empty)"
    using claim [where sub = True and sets = "(Map.empty, Map.empty)"] t by blast
  moreover have "\<forall>k \<in> set [''https://a.test/p1''] \<union> set [''https://a.test/doc.pdf''].
      strings_HasPrefix k ''http:'' \<or> strings_HasPrefix k ''https:''"
    using claim [where sub = False] plain_keeps_scheme run by blast
  ultimately show ?thesis using s plain_keeps_scheme run by simp
qed

subsection \<open>Sanitizing and resolving\<close>

lemma takeWhile_longest: "prefix b xs \<Longrightarrow> list_all P b \<Longrightarrow> prefix b (takeWhile P xs)"
proof (induction b arbitrary: xs)
  case Nil
  then show ?case by simp
next
  case (Cons x b)
  then obtain ys where "xs = x # ys" "prefix b ys" by (auto simp: prefix_def)
  then show ?case using Cons by simp
qed

lemma FindString_prefix: "prefix (sanitizeRegex_FindString s) s"
proof -
  have a: "prefix (p @ takeWhile url_char (drop n s)) s"
    if "strings_HasPrefix s p" "length p = n" for p n
  proof -
    have "s = p @ drop n s"
      using that by (metis append_take_drop_id strings_HasPrefix_def)
    moreover have "prefix (takeWhile url_char (drop n s)) (drop n s)"
      by (metis prefixI takeWhile_dropWhile_id)
    ultimately show ?thesis by (metis same_prefix_prefix)
  qed
  show ?thesis
  proof (cases "strings_HasPrefix s ''https://''")
    case True
    then show ?thesis using a [OF True, of 8]
      by (simp add: sanitizeRegex_FindString_def Let_def)
  next
    case False
    note https = this
    show ?thesis
    proof (cases "strings_HasPrefix s ''http://''")
      case True
      then show ?thesis using a [OF True, of 7] https
        by (simp add: sanitizeRegex_FindString_def Let_def)
    next
      case False
      then show ?thesis using https by (simp add: sanitizeRegex_FindString_def)
    qed
  qed
qed

lemma FindString_like: "sanitizeRegex_FindString s \<noteq> [] \<Longrightarrow> url_like (sanitizeRegex_FindString s)"
proof -
  assume n: "sanitizeRegex_FindString s \<noteq> []"
  have all: "list_all url_char (takeWhile url_char xs)" for xs
    by (simp add: list_all_iff) (metis set_takeWhileD)
  show ?thesis
  proof (cases "strings_HasPrefix s ''https://''")
    case True
    then show ?thesis using n all [of "drop 8 s"]
      unfolding url_like_def sanitizeRegex_FindString_def Let_def
      by (intro exI [of _ "takeWhile url_char (drop 8 s)"]) (auto split: if_splits)
  next
    case False
    then show ?thesis using n all [of "drop 7 s"]
      unfolding url_like_def sanitizeRegex_FindString_def Let_def
      by (intro exI [of _ "takeWhile url_char (drop 7 s)"]) (auto split: if_splits)
  qed
qed

lemma FindString_longest:
  assumes p: "prefix p s" and like: "url_like p"
  shows "length p \<le> length (sanitizeRegex_FindString s)"
proof -
  obtain body where body: "body \<noteq> []" "list_all url_char body"
      and shape: "p = ''http://'' @ body \<or> p = ''https://'' @ body"
    using like by (auto simp: url_like_def)
  from shape show ?thesis
  proof
    assume e: "p = ''https://'' @ body"
    then obtain zs where s: "s = ''https://'' @ body @ zs" using p by (auto simp: prefix_def)
    then have "prefix body (takeWhile url_char (drop 8 s))"
      using body by (intro takeWhile_longest) simp_all
    moreover from this have "takeWhile url_char (drop 8 s) \<noteq> []" using body by auto
    moreover have "strings_HasPrefix s ''https://''" using s by (simp add: strings_HasPrefix_def)
    ultimately show ?thesis using e
      by (simp add: sanitizeRegex_FindString_def Let_def prefix_length_le)
  next
    assume e: "p = ''http://'' @ body"
    then obtain zs where s: "s = ''http://'' @ body @ zs" using p by (auto simp: prefix_def)
    then have "prefix body (takeWhile url_char (drop 7 s))"
      using body by (intro takeWhile_longest) simp_all
    moreover from this have "takeWhile url_char (drop 7 s) \<noteq> []" using body by auto
    moreover have "strings_HasPrefix s ''http://''" "\<not> strings_HasPrefix s ''https://''"
      using s by (simp_all add: strings_HasPrefix_def)
    ultimately show ?thesis using e
      by (simp add: sanitizeRegex_FindString_def Let_def prefix_length_le)
  qed
qed

lemma processLink_resolves:
  assumes "processLinkFromResponse lib href label baseURL pb sub (c, f) \<noteq> (c, f)"
  shows "\<exists>parsed resolved.
      url_Parse lib (sanitizeURL lib href) = Some parsed \<and>
      (IsAbs parsed \<longrightarrow> resolved = parsed) \<and>
      (\<not> IsAbs parsed \<longrightarrow>
         (\<exists>base. url_Parse lib baseURL = Some base \<and>
            resolved = url_ResolveReference lib base parsed)) \<and>
      shouldCrawlURL lib resolved pb sub \<and>
      processLinkFromResponse lib href label baseURL pb sub (c, f) =
        (if isFileURL lib (resolved\<lparr>Fragment := []\<rparr>)
         then (c, f(url_String lib (resolved\<lparr>Fragment := []\<rparr>) \<mapsto> True))
         else (c(url_String lib (resolved\<lparr>Fragment := []\<rparr>) \<mapsto> True), f))"
proof -
  have nonempty: "\<not> (href = [] \<or> strings_HasPrefix href ''#'' \<or> sanitizeURL lib href = [])"
    using assms by (auto simp: processLinkFromResponse_def Let_def split: if_splits)
  obtain parsed where parsed: "url_Parse lib (sanitizeURL lib href) = Some parsed"
    using assms nonempty
    by (cases "url_Parse lib (sanitizeURL lib href)")
       (auto simp: processLinkFromResponse_def Let_def split: if_splits)
  show ?thesis
  proof (cases "IsAbs parsed")
    case True
    then have "shouldCrawlURL lib parsed pb sub"
      using assms nonempty parsed
      by (auto simp: processLinkFromResponse_def Let_def split: if_splits)
    then show ?thesis using nonempty parsed True
      by (intro exI [of _ parsed]) (simp add: processLinkFromResponse_def Let_def)
  next
    case False
    then obtain base where base: "url_Parse lib baseURL = Some base"
      using assms nonempty parsed
      by (cases "url_Parse lib baseURL")
         (auto simp: processLinkFromResponse_def Let_def split: if_splits)
    let ?r = "url_ResolveReference lib base parsed"
    have "shouldCrawlURL lib ?r pb sub"
      using assms nonempty parsed False base
      by (auto simp: processLinkFromResponse_def Let_def split: if_splits)
    then show ?thesis using nonempty parsed False base
      by (intro exI [of _ parsed] exI [of _ ?r]) (simp add: processLinkFromResponse_def Let_def)
  qed
qed

lemma range_keys_one: "range_keys [k \<mapsto> v] ks \<longleftrightarrow> ks = [k]"
proof
  assume "range_keys [k \<mapsto> v] ks"
  then have d: "distinct ks" and s: "set ks = {k}" by (simp_all add: range_keys_def)
  then have "length ks = 1" using distinct_card [of ks] by simp
  then show "ks = [k]" using s by (cases ks) auto
qed (simp add: range_keys_def)

lemma page_with_p1:
  "cr_Links (CrawlWebsite_result plain_golib ''https://a.test/'' body [(''/p1'', label)]) =
     \<lparr>Internal = [\<lparr>Href = ''https://a.test/p1'',
                  Text = (if strings_TrimSpace plain_golib label = [] then ''/p1''
                          else strings_TrimSpace plain_golib label),
                  BaseDomain = ''a.test''\<rparr>],
      External = []\<rparr>"
  by (simp add: CrawlWebsite_result_def webcrawl_extractLinks_def webcrawl_link_def plain_defs
      strings_HasPrefix_def Let_def)

lemma p1_sets:
  "extractLinks_sets plain_golib [\<lparr>Href = ''https://a.test/p1'', Text = label,
       BaseDomain = ''a.test''\<rparr>] ''https://a.test/'' (the (plain_Parse ''https://a.test/'')) sub
     (Map.empty, Map.empty) = ([''https://a.test/p1'' \<mapsto> True], Map.empty)"
  by (simp add: classifier_defs plain_defs)



section \<open>The counters\<close>

lemma count_append: "count P (ws @ [w]) = count P ws + (if P (wpc w) then 1 else 0)"
  by (simp add: count_def)

lemma count_update:
  "i < length ws \<Longrightarrow>
   count P (ws[i := w]) + (if P (wpc (ws ! i)) then 1 else 0) =
   count P ws + (if P (wpc w) then 1 else 0)"
proof (induction ws arbitrary: i)
  case Nil
  then show ?case by simp
next
  case (Cons a ws)
  then show ?case by (cases i) (auto simp: count_def)
qed

lemma count_pos: "i < length ws \<Longrightarrow> P (wpc (ws ! i)) \<Longrightarrow> 0 < count P ws"
  by (auto simp: count_def filter_empty_conv intro!: bexI [of _ "ws ! i"])

lemma count_at:
  assumes "i < length ws"
  shows "int (count P (ws[i := (ws ! i)\<lparr>wpc := pc\<rparr>])) =
    int (count P ws) - (if P (wpc (ws ! i)) then 1 else 0) + (if P pc then 1 else 0)"
  using count_update [OF assms, of P "(ws ! i)\<lparr>wpc := pc\<rparr>"] by (simp split: if_splits)

lemma count_same:
  assumes "i < length ws" and "P (wpc (ws ! i)) = P pc"
  shows "count P (ws[i := (ws ! i)\<lparr>wpc := pc\<rparr>]) = count P ws"
  using count_update [OF assms(1), of P "(ws ! i)\<lparr>wpc := pc\<rparr>"] assms(2) by simp

lemma no_panic:
  assumes "counts_ok s" and "i < length (workers s)" and "wpc (workers s ! i) = W_Done"
  shows "0 < wg s"
  using assms count_pos [of i "workers s" alive] by (simp add: counts_ok_def alive_def)

lemma permit_held:
  assumes "counts_ok s" and "i < length (workers s)" and "holds_permit (wpc (workers s ! i))"
  shows "0 < semaphore s"
  using assms count_pos [of i "workers s" holds_permit] by (simp add: counts_ok_def)

lemma counts_ok_step:
  assumes "counts_ok s" and "step lib e s = Some s'"
  shows "counts_ok s'"
  using assms(2)
proof (cases rule: stepE)
  case sched
  from sched(2) show ?thesis
  proof (cases rule: sched_stepE)
    case (spawn job)
    then show ?thesis using assms(1)
      by (simp add: counts_ok_def count_append holds_permit_def active_def alive_def)
  qed (use assms(1) in \<open>auto simp: counts_ok_def\<close>)
next
  case (work i)
  from work(2) show ?thesis
  proof (cases rule: work_stepE)
    case panic
    then show ?thesis using no_panic [OF assms(1) panic(1,2)] by simp
  qed (use assms(1) in
        \<open>simp_all add: counts_ok_def count_at count_same holds_permit_def active_def alive_def\<close>)
qed (use assms(1) in
        \<open>simp_all add: counts_ok_def count_at count_same holds_permit_def active_def alive_def\<close>)

lemma counts_ok_start:
  assumes "SpiderWebsite_start lib target given = Inr s0"
  shows "counts_ok s0"
  using start_fields(8,14) [OF assms]
  by (simp add: counts_ok_def start_fields(1,6,9-13) [OF assms] count_def)

section \<open>Every URL is visited once\<close>

lemma map_update_same: "(map f xs)[i := f (xs ! i)] = map f xs"
  by (cases "i < length xs") (simp_all add: list_update_same_conv list_update_beyond)

lemma worker_urls_simps [simp]:
  "worker_urls (s\<lparr>options := x0\<rparr>) = worker_urls s"
  "worker_urls (s\<lparr>targetURL := x1\<rparr>) = worker_urls s"
  "worker_urls (s\<lparr>parsedURL := x2\<rparr>) = worker_urls s"
  "worker_urls (s\<lparr>result := x3\<rparr>) = worker_urls s"
  "worker_urls (s\<lparr>visitedURLs := x4\<rparr>) = worker_urls s"
  "worker_urls (s\<lparr>urlJobs := x5\<rparr>) = worker_urls s"
  "worker_urls (s\<lparr>urlJobs_cap := x6\<rparr>) = worker_urls s"
  "worker_urls (s\<lparr>semaphore := x7\<rparr>) = worker_urls s"
  "worker_urls (s\<lparr>activeWorkers := x8\<rparr>) = worker_urls s"
  "worker_urls (s\<lparr>wg := x9\<rparr>) = worker_urls s"
  "worker_urls (s\<lparr>mpc := x10\<rparr>) = worker_urls s"
  "worker_urls (s\<lparr>workers := x\<rparr>) = map currentURL x"
  by (simp_all add: worker_urls_def)

lemma spawning_simps [simp]:
  "spawning (s\<lparr>options := x0\<rparr>) = spawning s"
  "spawning (s\<lparr>targetURL := x1\<rparr>) = spawning s"
  "spawning (s\<lparr>parsedURL := x2\<rparr>) = spawning s"
  "spawning (s\<lparr>result := x3\<rparr>) = spawning s"
  "spawning (s\<lparr>visitedURLs := x4\<rparr>) = spawning s"
  "spawning (s\<lparr>urlJobs := x5\<rparr>) = spawning s"
  "spawning (s\<lparr>urlJobs_cap := x6\<rparr>) = spawning s"
  "spawning (s\<lparr>semaphore := x7\<rparr>) = spawning s"
  "spawning (s\<lparr>activeWorkers := x8\<rparr>) = spawning s"
  "spawning (s\<lparr>wg := x9\<rparr>) = spawning s"
  "spawning (s\<lparr>mpc := x\<rparr>) = (case x of M_Spawn job \<Rightarrow> {url job} | _ \<Rightarrow> {})"
  "spawning (s\<lparr>workers := x11\<rparr>) = spawning s"
  by (simp_all add: spawning_def)

lemma worker_urls_at_wpc [simp]: "worker_urls (at_wpc i pc s) = worker_urls s"
  by (simp add: worker_urls_def map_update map_update_same)

lemma spawning_at_wpc [simp]: "spawning (at_wpc i pc s) = spawning s"
  by (simp add: spawning_def)

lemma visited_ok_step:
  assumes "visited_ok s" and "counts_ok s" and "step lib e s = Some s'"
  shows "visited_ok s'"
  using assms(3)
proof (cases rule: stepE)
  case sched
  from sched(2) show ?thesis
  proof (cases rule: sched_stepE)
    case (admit job)
    have "url job \<notin> dom (visitedURLs s)"
      using admit(2) assms(1)
      by (cases "visitedURLs s (url job)") (auto simp: lookup_def visited_ok_def)
    moreover have "spawning s = {}" using admit(1) by (simp add: spawning_def)
    ultimately show ?thesis using assms(1) admit(3) by (auto simp: visited_ok_def)
  next
    case (spawn job)
    then have "spawning s = {url job}" by (simp add: spawning_def)
    then show ?thesis using assms(1) spawn(3) by (auto simp: visited_ok_def worker_urls_def)
  next
    case seed
    then have "spawning s = {}" by (simp add: spawning_def)
    then show ?thesis using assms(1) seed(3) by (simp add: visited_ok_def)
  next
    case (reject job)
    then have "spawning s = {}" by (simp add: spawning_def)
    then show ?thesis using assms(1) reject(3) by (simp add: visited_ok_def)
  next
    case (pass job)
    then have "spawning s = {}" by (simp add: spawning_def)
    then show ?thesis using assms(1) pass(4) by (simp add: visited_ok_def)
  next
    case (seen job)
    then have "spawning s = {}" by (simp add: spawning_def)
    then show ?thesis using assms(1) seen(3) by (simp add: visited_ok_def)
  next
    case stop
    then have "spawning s = {}" by (simp add: spawning_def)
    then show ?thesis using assms(1) stop(3) by (simp add: visited_ok_def)
  next
    case more
    then have "spawning s = {}" by (simp add: spawning_def)
    then show ?thesis using assms(1) more(3) by (simp add: visited_ok_def)
  next
    case read
    then have "spawning s = {}" by (simp add: spawning_def)
    then show ?thesis using assms(1) read(2) by (simp add: visited_ok_def)
  next
    case finish
    then have "spawning s = {}" by (simp add: spawning_def)
    then show ?thesis using assms(1) finish(3) by (simp add: visited_ok_def)
  next
    case (continue n)
    then have "spawning s = {}" by (simp add: spawning_def)
    then show ?thesis using assms(1) continue(3) by (simp add: visited_ok_def)
  next
    case joined
    then have "spawning s = {}" by (simp add: spawning_def)
    then show ?thesis using assms(1) joined(3) by (simp add: visited_ok_def)
  next
    case finalize
    then have "spawning s = {}" by (simp add: spawning_def)
    then show ?thesis using assms(1) finalize(2) by (simp add: visited_ok_def)
  qed
next
  case (work i)
  from work(2) show ?thesis
  proof (cases rule: work_stepE)
    case panic
    then show ?thesis using no_panic [OF assms(2) panic(1,2)] by simp
  qed (use assms(1) in \<open>simp_all add: visited_ok_def\<close>)
next
  case (recv job jobs)
  then have "spawning s = {}" by (simp add: spawning_def)
  then show ?thesis using assms(1) recv(4) by (simp add: visited_ok_def)
next
  case idle
  then have "spawning s = {}" by (simp add: spawning_def)
  then show ?thesis using assms(1) idle(3) by (simp add: visited_ok_def)
qed (use assms(1) in \<open>simp_all add: visited_ok_def\<close>)

lemma visited_ok_start: "SpiderWebsite_start lib target given = Inr s0 \<Longrightarrow> visited_ok s0"
  by (simp add: visited_ok_def start_fields worker_urls_def spawning_def)

lemma worker_url_neq:
  assumes "distinct (worker_urls s)" and "i < length (workers s)" and "k < length (workers s)"
    and "k \<noteq> i"
  shows "currentURL (workers s ! k) \<noteq> currentURL (workers s ! i)"
  using assms by (auto simp: worker_urls_def distinct_conv_nth)

lemma worker_url_mem: "i < length (workers s) \<Longrightarrow> currentURL (workers s ! i) \<in> set (worker_urls s)"
  by (simp add: worker_urls_def)

lemma recorded_ok_pc:
  assumes "recorded_ok s" and "i < length (workers s)"
    and "pending pc \<longrightarrow> pending (wpc (workers s ! i))"
  shows "recorded_ok (at_wpc i pc s)"
  using assms by (auto simp: recorded_ok_def nth_list_update)

lemma recorded_ok_step:
  assumes "recorded_ok s" and "visited_ok s" and "counts_ok s" and "step lib e s = Some s'"
  shows "recorded_ok s'"
  using assms(4)
proof (cases rule: stepE)
  case sched
  from sched(2) show ?thesis
  proof (cases rule: sched_stepE)
    case (spawn job)
    have "url job \<notin> set (worker_urls s)"
      using assms(2) spawn(1) by (auto simp: visited_ok_def spawning_def)
    then have "url job \<notin> set (CrawledURLs (result s)) \<union> dom (FailedPages (result s))"
      using assms(1) by (auto simp: recorded_ok_def)
    then show ?thesis using assms(1) spawn(3)
      by (auto simp: recorded_ok_def nth_append worker_urls_def)
  qed (use assms(1) in \<open>auto simp: recorded_ok_def\<close>)
next
  case (work i)
  have d: "distinct (worker_urls s)" using assms(2) by (simp add: visited_ok_def)
  from work(2) show ?thesis
  proof (cases rule: work_stepE)
    case (failed err)
    let ?u = "currentURL (workers s ! i)"
    have new: "?u \<notin> set (CrawledURLs (result s)) \<union> dom (FailedPages (result s))"
      using assms(1) failed(1,2) by (simp add: recorded_ok_def pending_def)
    have other: "k < length (workers s) \<Longrightarrow> k \<noteq> i \<Longrightarrow> currentURL (workers s ! k) \<noteq> ?u" for k
      using worker_url_neq [OF d failed(1)] by blast
    show ?thesis using assms(1) failed new other worker_url_mem [OF failed(1)]
      by (auto simp: recorded_ok_def nth_list_update pending_def)
  next
    case (fetched crawlResult)
    let ?u = "currentURL (workers s ! i)"
    have new: "?u \<notin> set (CrawledURLs (result s)) \<union> dom (FailedPages (result s))"
      using assms(1) fetched(1,2) by (simp add: recorded_ok_def pending_def)
    have other: "k < length (workers s) \<Longrightarrow> k \<noteq> i \<Longrightarrow> currentURL (workers s ! k) \<noteq> ?u" for k
      using worker_url_neq [OF d fetched(1)] by blast
    show ?thesis using assms(1) fetched new other worker_url_mem [OF fetched(1)]
      by (auto simp: recorded_ok_def nth_list_update pending_def)
  next
    case panic
    then show ?thesis using no_panic [OF assms(3) panic(1,2)] by simp
  next
    case (files cl fl)
    have "recorded_ok (s\<lparr>result := (result s)
             \<lparr>DetectedFileUrls := DetectedFileUrls (result s) @ fl\<rparr>\<rparr>)"
      using assms(1) by (simp add: recorded_ok_def)
    then show ?thesis using files by (simp add: recorded_ok_pc pending_def)
  next
    case (enq link links)
    have "recorded_ok (s\<lparr>urlJobs := urlJobs s @
             [\<lparr>url = link, depth = currentDepth (workers s ! i) + 1\<rparr>]\<rparr>)"
      using assms(1) by (simp add: recorded_ok_def)
    then show ?thesis using enq by (simp add: recorded_ok_pc pending_def)
  next
    case leave
    have "recorded_ok (s\<lparr>activeWorkers := activeWorkers s - 1\<rparr>)"
      using assms(1) by (simp add: recorded_ok_def)
    then show ?thesis using leave by (simp add: recorded_ok_pc pending_def)
  next
    case release
    have "recorded_ok (s\<lparr>semaphore := semaphore s - 1\<rparr>)"
      using assms(1) by (simp add: recorded_ok_def)
    then show ?thesis using release by (simp add: recorded_ok_pc pending_def)
  next
    case counted
    have "recorded_ok (s\<lparr>wg := wg s - 1\<rparr>)"
      using assms(1) by (simp add: recorded_ok_def)
    then show ?thesis using counted by (simp add: recorded_ok_pc pending_def)
  qed (use assms(1) in \<open>simp_all add: recorded_ok_pc pending_def\<close>)
next
  case (recv job jobs)
  then show ?thesis using assms(1) by (simp add: recorded_ok_def)
next
  case idle
  then show ?thesis using assms(1) by (simp add: recorded_ok_def)
qed (use assms(1) in \<open>simp_all add: recorded_ok_pc pending_def\<close>)

lemma recorded_ok_start: "SpiderWebsite_start lib target given = Inr s0 \<Longrightarrow> recorded_ok s0"
  by (simp add: recorded_ok_def start_fields worker_urls_def)

section \<open>Depth\<close>

lemma depth_ok_pc:
  assumes "depth_ok s" and "i < length (workers s)"
    and "expanding pc \<longrightarrow> currentDepth (workers s ! i) < MaxDepth (options s)"
  shows "depth_ok (at_wpc i pc s)"
  using assms by (auto simp: depth_ok_def nth_list_update)

lemma depth_ok_step:
  assumes "depth_ok s" and "counts_ok s" and "step lib e s = Some s'"
  shows "depth_ok s'"
  using assms(3)
proof (cases rule: stepE)
  case sched
  from sched(2) show ?thesis
  proof (cases rule: sched_stepE)
    case (spawn job)
    then show ?thesis using assms(1)
      by (auto simp: depth_ok_def nth_append expanding_def)
  qed (use assms(1) in \<open>auto simp: depth_ok_def\<close>)
next
  case (work i)
  from work(2) show ?thesis
  proof (cases rule: work_stepE)
    case panic
    then show ?thesis using no_panic [OF assms(2) panic(1,2)] by simp
  next
    case (failed err)
    have "depth_ok (s\<lparr>result := (result s)
        \<lparr>FailedPages := (FailedPages (result s))(currentURL (workers s ! i) \<mapsto> err)\<rparr>\<rparr>)"
      using assms(1) by (simp add: depth_ok_def)
    then show ?thesis using failed by (simp add: depth_ok_pc expanding_def)
  next
    case (fetched crawlResult)
    have "depth_ok (s\<lparr>result := (result s)
             \<lparr>Content := Content (result s) @ [CHR 0x0A, CHR 0x0A] @ ''# URL: '' @
                 currentURL (workers s ! i) @ [CHR 0x0A, CHR 0x0A] @
                 removeMarkdownLinks (cr_Content crawlResult),
              CrawledURLs := CrawledURLs (result s) @ [currentURL (workers s ! i)],
              SuccessfulPages := SuccessfulPages (result s) + 1\<rparr>\<rparr>)"
      using assms(1) by (simp add: depth_ok_def)
    then show ?thesis using fetched by (simp add: depth_ok_pc expanding_def)
  next
    case (files cl fl)
    have "depth_ok (s\<lparr>result := (result s)
             \<lparr>DetectedFileUrls := DetectedFileUrls (result s) @ fl\<rparr>\<rparr>)"
      using assms(1) by (simp add: depth_ok_def)
    moreover have "currentDepth (workers s ! i) < MaxDepth (options s)"
      using assms(1) files(1,2) by (auto simp: depth_ok_def expanding_def)
    ultimately show ?thesis using files by (simp add: depth_ok_pc)
  next
    case (enq link links)
    have below: "currentDepth (workers s ! i) < MaxDepth (options s)"
      using assms(1) enq(1,2) by (auto simp: depth_ok_def expanding_def)
    then have "depth_ok (s\<lparr>urlJobs := urlJobs s @
             [\<lparr>url = link, depth = currentDepth (workers s ! i) + 1\<rparr>]\<rparr>)"
      using assms(1) by (auto simp: depth_ok_def)
    then show ?thesis using enq below by (simp add: depth_ok_pc)
  next
    case (drop link links)
    have "currentDepth (workers s ! i) < MaxDepth (options s)"
      using assms(1) drop(1,2) by (auto simp: depth_ok_def expanding_def)
    then show ?thesis using assms(1) drop by (simp add: depth_ok_pc)
  next
    case leave
    have "depth_ok (s\<lparr>activeWorkers := activeWorkers s - 1\<rparr>)"
      using assms(1) by (simp add: depth_ok_def)
    then show ?thesis using leave by (simp add: depth_ok_pc expanding_def)
  next
    case release
    have "depth_ok (s\<lparr>semaphore := semaphore s - 1\<rparr>)"
      using assms(1) by (simp add: depth_ok_def)
    then show ?thesis using release by (simp add: depth_ok_pc expanding_def)
  next
    case counted
    have "depth_ok (s\<lparr>wg := wg s - 1\<rparr>)"
      using assms(1) by (simp add: depth_ok_def)
    then show ?thesis using counted by (simp add: depth_ok_pc expanding_def)
  qed (use assms(1) in \<open>simp_all add: depth_ok_pc expanding_def\<close>)
next
  case (recv job jobs)
  then show ?thesis using assms(1) by (auto simp: depth_ok_def)
next
  case idle
  then show ?thesis using assms(1) by (auto simp: depth_ok_def)
qed (use assms(1) in \<open>simp_all add: depth_ok_pc expanding_def\<close>)

lemma depth_ok_start: "SpiderWebsite_start lib target given = Inr s0 \<Longrightarrow> depth_ok s0"
  by (simp add: depth_ok_def start_fields)

section \<open>The invariant of the crawl\<close>

lemma crawl_inv_step:
  assumes "crawl_inv s" and "step lib e s = Some s'"
  shows "crawl_inv s'"
  using assms counts_ok_step pages_ok_step visited_ok_step recorded_ok_step depth_ok_step
  unfolding crawl_inv_def by blast

lemma crawl_inv_start: "SpiderWebsite_start lib target given = Inr s0 \<Longrightarrow> crawl_inv s0"
  by (simp add: crawl_inv_def counts_ok_start pages_ok_start visited_ok_start
      recorded_ok_start depth_ok_start)

lemma crawl_inv_exec:
  assumes "crawl_inv s" and "exec lib es s = Some s'"
  shows "crawl_inv s'"
  using crawl_inv_step assms by (rule exec_invariant)

lemma crawl_inv_reach:
  assumes "SpiderWebsite_start lib target given = Inr s0" and "exec lib es s0 = Some s"
  shows "crawl_inv s"
  using crawl_inv_start [OF assms(1)] assms(2) by (rule crawl_inv_exec)

section \<open>Admissions\<close>

lemma admits_step:
  assumes "step lib e s = Some s'"
  shows "TotalPages (result s') = TotalPages (result s) + int (length (admits e s)) \<and>
    dom (visitedURLs s') = dom (visitedURLs s) \<union> set (admits e s)"
  using assms
proof (cases rule: stepE)
  case sched
  from sched(2) show ?thesis
    by (cases rule: sched_stepE) (auto simp: admits_def sched(1))
next
  case (work i)
  from work(2) show ?thesis
    by (cases rule: work_stepE) (auto simp: admits_def work(1) split: mpc.splits)
qed (auto simp: admits_def split: mpc.splits)

lemma admits_fresh:
  assumes "visited_ok s"
  shows "set (admits e s) \<inter> dom (visitedURLs s) = {} \<and> distinct (admits e s)"
proof (cases "mpc s")
  case (M_Lock job)
  have "\<not> lookup (visitedURLs s) (url job) \<Longrightarrow> url job \<notin> dom (visitedURLs s)"
    using assms by (cases "visitedURLs s (url job)") (auto simp: lookup_def visited_ok_def)
  then show ?thesis using M_Lock by (auto simp: admits_def)
qed (simp_all add: admits_def)

lemma admitted_exec:
  assumes "exec lib es s = Some s'"
  shows "TotalPages (result s') = TotalPages (result s) + int (length (admitted lib es s)) \<and>
    dom (visitedURLs s') = dom (visitedURLs s) \<union> set (admitted lib es s)"
  using assms
proof (induction es arbitrary: s)
  case Nil
  then show ?case by simp
next
  case (Cons e es)
  then obtain t where t: "step lib e s = Some t" and rest: "exec lib es t = Some s'"
    by (auto split: option.splits)
  show ?case using admits_step [OF t] Cons.IH [OF rest] t by auto
qed

lemma admitted_distinct:
  assumes "crawl_inv s" and "exec lib es s = Some s'"
  shows "distinct (admitted lib es s) \<and> set (admitted lib es s) \<inter> dom (visitedURLs s) = {}"
  using assms
proof (induction es arbitrary: s)
  case Nil
  then show ?case by simp
next
  case (Cons e es)
  then obtain t where t: "step lib e s = Some t" and rest: "exec lib es t = Some s'"
    by (auto split: option.splits)
  have inv: "crawl_inv t" using Cons.prems(1) t by (rule crawl_inv_step)
  have fresh: "set (admits e s) \<inter> dom (visitedURLs s) = {}" "distinct (admits e s)"
    using admits_fresh Cons.prems(1) by (auto simp: crawl_inv_def)
  have dom: "dom (visitedURLs t) = dom (visitedURLs s) \<union> set (admits e s)"
    using admits_step [OF t] by simp
  have ih: "distinct (admitted lib es t)" "set (admitted lib es t) \<inter> dom (visitedURLs t) = {}"
    using Cons.IH [OF inv rest] by simp_all
  show ?case using fresh dom ih t by auto
qed

lemma scenario_run:
  "\<exists>s0 s. SpiderWebsite_start plain_golib ''https://a.test/'' (Some scenario_options) = Inr s0 \<and>
     exec plain_golib scenario_events s0 = Some s \<and> mpc s = M_Return \<and>
     admitted plain_golib scenario_events s0 = [''https://a.test/'', ''https://a.test/p1''] \<and>
     CrawledURLs (result s) = [''https://a.test/'', ''https://a.test/p1''] \<and>
     DetectedFileUrls (result s) = [''https://a.test/doc.pdf'', ''https://a.test/doc.pdf''] \<and>
     TotalPages (result s) = 2 \<and> SuccessfulPages (result s) = 2 \<and>
     FailedPages (result s) = Map.empty"
  by (simp add: scenario_options_def scenario_events_def scenario_home_eq scenario_p1_eq
      admits_def crawl_defs plain_defs classifier_defs)

text \<open>
  C3. In every execution the admitted URLs are pairwise different: they are the visited
  set, and the counter is their number. Every step marks and counts together: the
  counter grows by the number of URLs the step adds to the visited set. The crawled
  URLs are pairwise different, none of them is a key of the failed pages, and all of
  them are visited.
\<close>

theorem admitted_once:
  assumes "SpiderWebsite_start lib target given = Inr s0" and "exec lib es s0 = Some s"
  shows "distinct (admitted lib es s0) \<and>
    set (admitted lib es s0) = dom (visitedURLs s) \<and>
    TotalPages (result s) = int (length (admitted lib es s0)) \<and>
    (\<forall>e s'. step lib e s = Some s' \<longrightarrow>
       TotalPages (result s') = TotalPages (result s) + int (length (admits e s)) \<and>
       dom (visitedURLs s') = dom (visitedURLs s) \<union> set (admits e s) \<and>
       set (admits e s) \<inter> dom (visitedURLs s) = {}) \<and>
    distinct (CrawledURLs (result s)) \<and>
    set (CrawledURLs (result s)) \<inter> dom (FailedPages (result s)) = {} \<and>
    set (CrawledURLs (result s)) \<union> dom (FailedPages (result s)) \<subseteq> dom (visitedURLs s)"
proof -
  have inv0: "crawl_inv s0" using assms(1) by (rule crawl_inv_start)
  have inv: "crawl_inv s" using assms by (rule crawl_inv_reach)
  have "distinct (admitted lib es s0)" using admitted_distinct [OF inv0 assms(2)] by simp
  moreover have "set (admitted lib es s0) = dom (visitedURLs s)"
      "TotalPages (result s) = int (length (admitted lib es s0))"
    using admitted_exec [OF assms(2)] start_fields(4,5) [OF assms(1)] by simp_all
  moreover have "\<forall>e s'. step lib e s = Some s' \<longrightarrow>
       TotalPages (result s') = TotalPages (result s) + int (length (admits e s)) \<and>
       dom (visitedURLs s') = dom (visitedURLs s) \<union> set (admits e s) \<and>
       set (admits e s) \<inter> dom (visitedURLs s) = {}"
    using admits_step admits_fresh inv by (simp add: crawl_inv_def)
  moreover have "distinct (CrawledURLs (result s))"
      "set (CrawledURLs (result s)) \<inter> dom (FailedPages (result s)) = {}"
    using inv by (simp_all add: crawl_inv_def recorded_ok_def)
  moreover have "set (CrawledURLs (result s)) \<union> dom (FailedPages (result s)) \<subseteq>
      dom (visitedURLs s)"
    using inv by (auto simp: crawl_inv_def recorded_ok_def visited_ok_def)
  ultimately show ?thesis by blast
qed

theorem admitted_once_witness:
  "\<exists>s0 s. SpiderWebsite_start plain_golib ''https://a.test/'' (Some scenario_options) = Inr s0 \<and>
     exec plain_golib scenario_events s0 = Some s \<and>
     admitted plain_golib scenario_events s0 = [''https://a.test/'', ''https://a.test/p1''] \<and>
     dom (visitedURLs s) = {''https://a.test/'', ''https://a.test/p1''} \<and>
     TotalPages (result s) = 2 \<and>
     distinct (CrawledURLs (result s)) \<and>
     set (CrawledURLs (result s)) \<inter> dom (FailedPages (result s)) = {}"
proof -
  obtain s0 s where
    start: "SpiderWebsite_start plain_golib ''https://a.test/'' (Some scenario_options) = Inr s0"
    and run: "exec plain_golib scenario_events s0 = Some s"
    and adm: "admitted plain_golib scenario_events s0 =
      [''https://a.test/'', ''https://a.test/p1'']"
    using scenario_run by blast
  note claim = admitted_once [OF start run]
  have "dom (visitedURLs s) = {''https://a.test/'', ''https://a.test/p1''}"
    using claim adm by auto
  moreover have "TotalPages (result s) = 2" using claim adm by simp
  ultimately show ?thesis using claim start run adm by blast
qed

text \<open>
  C4. In every state of every execution no worker runs at a depth above \<open>MaxDepth\<close>, and
  no job that has passed the test of line 91 has one; so every crawled or failed URL
  is the URL of a worker at a depth of at most \<open>MaxDepth\<close>. A worker at depth \<open>MaxDepth\<close>
  never extracts links: its steps leave the job channel and the detected file URLs as
  they are.
\<close>

theorem depth_limit:
  assumes "SpiderWebsite_start lib target given = Inr s0" and "exec lib es s0 = Some s"
  shows "(\<forall>i < length (workers s). currentDepth (workers s ! i) \<le> MaxDepth (options s)) \<and>
    (\<forall>job. mpc s = M_Lock job \<or> mpc s = M_Spawn job \<longrightarrow> depth job \<le> MaxDepth (options s)) \<and>
    (\<forall>u \<in> set (CrawledURLs (result s)) \<union> dom (FailedPages (result s)).
       \<exists>i < length (workers s). currentURL (workers s ! i) = u \<and>
         currentDepth (workers s ! i) \<le> MaxDepth (options s)) \<and>
    (\<forall>i < length (workers s). currentDepth (workers s ! i) = MaxDepth (options s) \<longrightarrow>
       \<not> expanding (wpc (workers s ! i)) \<and>
       (\<forall>crawlable fileLinks. step lib (Extract i crawlable fileLinks) s = None) \<and>
       (\<forall>s'. step lib (Work i) s = Some s' \<longrightarrow>
          urlJobs s' = urlJobs s \<and>
          DetectedFileUrls (result s') = DetectedFileUrls (result s)))"
proof -
  have inv: "crawl_inv s" using assms by (rule crawl_inv_reach)
  then have d: "depth_ok s" and r: "recorded_ok s" by (simp_all add: crawl_inv_def)
  have 1: "\<forall>i < length (workers s). currentDepth (workers s ! i) \<le> MaxDepth (options s)"
    using d by (simp add: depth_ok_def)
  have 2: "\<forall>job. mpc s = M_Lock job \<or> mpc s = M_Spawn job \<longrightarrow>
      depth job \<le> MaxDepth (options s)"
    using d by (simp add: depth_ok_def)
  have 3: "\<forall>u \<in> set (CrawledURLs (result s)) \<union> dom (FailedPages (result s)).
       \<exists>i < length (workers s). currentURL (workers s ! i) = u \<and>
         currentDepth (workers s ! i) \<le> MaxDepth (options s)"
  proof
    fix u
    assume "u \<in> set (CrawledURLs (result s)) \<union> dom (FailedPages (result s))"
    then have "u \<in> set (worker_urls s)" using r by (auto simp: recorded_ok_def)
    then obtain i where "i < length (workers s)" "currentURL (workers s ! i) = u"
      by (auto simp: worker_urls_def in_set_conv_nth)
    then show "\<exists>i < length (workers s). currentURL (workers s ! i) = u \<and>
         currentDepth (workers s ! i) \<le> MaxDepth (options s)"
      using 1 by blast
  qed
  have 4: "\<forall>i < length (workers s). currentDepth (workers s ! i) = MaxDepth (options s) \<longrightarrow>
       \<not> expanding (wpc (workers s ! i)) \<and>
       (\<forall>crawlable fileLinks. step lib (Extract i crawlable fileLinks) s = None) \<and>
       (\<forall>s'. step lib (Work i) s = Some s' \<longrightarrow>
          urlJobs s' = urlJobs s \<and>
          DetectedFileUrls (result s') = DetectedFileUrls (result s))"
  proof (intro allI impI)
    fix i
    assume i: "i < length (workers s)"
      and at: "currentDepth (workers s ! i) = MaxDepth (options s)"
    have ne: "\<not> expanding (wpc (workers s ! i))"
      using d i at by (auto simp: depth_ok_def)
    have "step lib (Extract i cl fl) s = None" for cl fl
      using at by (cases "wpc (workers s ! i)") (simp_all add: step_def extract_step_def Let_def)
    moreover have "urlJobs s' = urlJobs s \<and>
        DetectedFileUrls (result s') = DetectedFileUrls (result s)"
      if "step lib (Work i) s = Some s'" for s'
    proof -
      from that have "work_step i s = Some s'" by (simp add: step_def)
      then show ?thesis using ne by (cases rule: work_stepE) (auto simp: expanding_def)
    qed
    ultimately show "\<not> expanding (wpc (workers s ! i)) \<and>
       (\<forall>crawlable fileLinks. step lib (Extract i crawlable fileLinks) s = None) \<and>
       (\<forall>s'. step lib (Work i) s = Some s' \<longrightarrow>
          urlJobs s' = urlJobs s \<and>
          DetectedFileUrls (result s') = DetectedFileUrls (result s))"
      using ne by blast
  qed
  show ?thesis using 1 2 3 4 by blast
qed

lemma depth_run:
  "\<exists>s0 s s'. SpiderWebsite_start plain_golib ''https://a.test/''
        (Some (scenario_options\<lparr>MaxDepth := 1\<rparr>)) = Inr s0 \<and>
     exec plain_golib (take 22 scenario_events) s0 = Some s \<and>
     length (workers s) = 2 \<and> currentDepth (workers s ! 1) = 1 \<and>
     MaxDepth (options s) = 1 \<and> CrawledURLs (result s) = [''https://a.test/'', ''https://a.test/p1''] \<and>
     wpc (workers s ! 1) = W_Expand scenario_p1 \<and>
     step plain_golib (Work 1) s = Some s' \<and> urlJobs s = []"
  by (simp add: scenario_options_def scenario_events_def scenario_home_eq scenario_p1_eq
      crawl_defs plain_defs classifier_defs)

theorem depth_limit_witness:
  "\<exists>s0 s s'. SpiderWebsite_start plain_golib ''https://a.test/''
        (Some (scenario_options\<lparr>MaxDepth := 1\<rparr>)) = Inr s0 \<and>
     exec plain_golib (take 22 scenario_events) s0 = Some s \<and>
     currentDepth (workers s ! 1) = MaxDepth (options s) \<and>
     step plain_golib (Extract 1 [] [''https://a.test/doc.pdf'']) s = None \<and>
     step plain_golib (Work 1) s = Some s' \<and> urlJobs s' = urlJobs s \<and>
     DetectedFileUrls (result s') = DetectedFileUrls (result s)"
proof -
  obtain s0 s s' where
    start: "SpiderWebsite_start plain_golib ''https://a.test/''
        (Some (scenario_options\<lparr>MaxDepth := 1\<rparr>)) = Inr s0"
    and run: "exec plain_golib (take 22 scenario_events) s0 = Some s"
    and facts: "length (workers s) = 2" "currentDepth (workers s ! 1) = 1"
      "MaxDepth (options s) = 1"
    and nxt: "step plain_golib (Work 1) s = Some s'"
    using depth_run by blast
  note claim = depth_limit [OF start run]
  have i: "1 < length (workers s)" using facts by simp
  have at: "currentDepth (workers s ! 1) = MaxDepth (options s)" using facts by simp
  have "step plain_golib (Extract 1 [] [''https://a.test/doc.pdf'']) s = None"
    using claim i at by blast
  moreover have "urlJobs s' = urlJobs s \<and>
      DetectedFileUrls (result s') = DetectedFileUrls (result s)"
    using claim i at nxt by blast
  ultimately show ?thesis using start run at nxt by blast
qed


text \<open>
  C5. The scenario: the document is linked from the seed and from the page. The call
  returns with the document twice in \<open>DetectedFileUrls\<close>: lines 213 to 221 build the set
  of the detected file URLs, which has one key, and pass it to the logger; the step that
  finalizes writes no field of the result.
\<close>

theorem finalize_keeps_duplicates:
  "\<exists>s0 s. SpiderWebsite_start plain_golib ''https://a.test/'' (Some scenario_options) = Inr s0 \<and>
     exec plain_golib scenario_events s0 = Some s \<and> mpc s = M_Return \<and>
     DetectedFileUrls (result s) = [''https://a.test/doc.pdf'', ''https://a.test/doc.pdf''] \<and>
     \<not> distinct (DetectedFileUrls (result s)) \<and>
     dom (uniqueFileUrls (DetectedFileUrls (result s))) = {''https://a.test/doc.pdf''} \<and>
     sched_step (s\<lparr>mpc := M_Finalize\<rparr>) = Some s"
proof -
  obtain s0 s where
    start: "SpiderWebsite_start plain_golib ''https://a.test/'' (Some scenario_options) = Inr s0"
    and run: "exec plain_golib scenario_events s0 = Some s"
    and fin: "mpc s = M_Return"
    and files: "DetectedFileUrls (result s) =
      [''https://a.test/doc.pdf'', ''https://a.test/doc.pdf'']"
    using scenario_run by blast
  have "sched_step (s\<lparr>mpc := M_Finalize\<rparr>) = Some (s\<lparr>mpc := M_Return\<rparr>)"
    by (simp add: sched_step_def)
  moreover have "s\<lparr>mpc := M_Return\<rparr> = s" using fin by simp
  ultimately show ?thesis using start run fin files by (auto simp: uniqueFileUrls_def)
qed


section \<open>Termination\<close>

lemma wf_rank_less: "wf rank_less"
  unfolding rank_less_def by (intro wf_inv_image wf_lex_prod wf_less_than)

lemma total_append: "total f (ws @ [w]) = total f ws + f (wpc w)"
  by (simp add: total_def)

lemma total_update:
  "i < length ws \<Longrightarrow> total f (ws[i := w]) + f (wpc (ws ! i)) = total f ws + f (wpc w)"
proof (induction ws arbitrary: i)
  case Nil
  then show ?case by simp
next
  case (Cons a ws)
  then show ?case by (cases i) (auto simp: total_def)
qed

lemma total_at:
  assumes "i < length (workers s)" and "wpc (workers s ! i) = pc"
  shows "total f (workers (at_wpc i pc' s)) + f pc = total f (workers s) + f pc'"
  using total_update [OF assms(1), of f "(workers s ! i)\<lparr>wpc := pc'\<rparr>"] assms(2) by simp

lemma rank_worker:
  assumes "i < length (workers s)" and "wpc (workers s ! i) = pc"
    and "options t = options s" "result t = result s \<or> TotalPages (result t) = TotalPages (result s)"
    "mpc t = mpc s" "workers t = workers s"
    and "unfetched pc' < unfetched pc \<or>
      unfetched pc' = unfetched pc \<and>
      wwork pc' + 3 * length (urlJobs t) < wwork pc + 3 * length (urlJobs s)"
  shows "(at_wpc i pc' t, s) \<in> rank_less"
proof -
  have i: "i < length (workers t)" and pc: "wpc (workers t ! i) = pc" using assms by simp_all
  have tp: "TotalPages (result t) = TotalPages (result s)" using assms(4) by auto
  have u: "total unfetched (workers (at_wpc i pc' t)) + unfetched pc =
      total unfetched (workers s) + unfetched pc'"
    using total_at [OF i pc, of unfetched pc'] assms(6) by simp
  have w: "total wwork (workers (at_wpc i pc' t)) + wwork pc =
      total wwork (workers s) + wwork pc'"
    using total_at [OF i pc, of wwork pc'] assms(6) by simp
  show ?thesis
    using assms(7) u w tp assms(3,5)
    by (auto simp: rank_less_def rank_def simp del: at_wpc_simps(12))
qed


lemma rank_step:
  assumes "crawl_inv s" and "step lib e s = Some s'"
  shows "if polling e s then rank s' = rank s else (s', s) \<in> rank_less"
  using assms(2)
proof (cases rule: stepE)
  case (recv job jobs)
  then show ?thesis by (simp add: polling_def rank_less_def rank_def)
next
  case idle
  then show ?thesis by (simp add: polling_def rank_less_def rank_def)
next
  case sched
  from sched(2) show ?thesis
  proof (cases rule: sched_stepE)
    case (admit job)
    have "TotalPages (result s) < MaxPages (options s)"
      using assms(1) admit(1) by (simp add: crawl_inv_def pages_ok_def)
    then show ?thesis using admit by (simp add: polling_def rank_less_def rank_def)
  next
    case (spawn job)
    then show ?thesis
      by (simp add: polling_def rank_less_def rank_def total_append)
  qed (simp_all add: sched(1) polling_def rank_less_def rank_def)
next
  case (fetch_ok i crawlResult)
  then show ?thesis using rank_worker [of i s W_Fetch s "W_Fetched crawlResult"]
    by (simp add: polling_def split: mpc.splits)
next
  case (fetch_err i err)
  then show ?thesis using rank_worker [of i s W_Fetch s "W_Failed err"]
    by (simp add: polling_def split: mpc.splits)
next
  case (extracted i crawlResult crawlableLinks fileLinks)
  then show ?thesis
    using rank_worker [of i s "W_Expand crawlResult" s "W_Files crawlableLinks fileLinks"]
    by (simp add: polling_def split: mpc.splits)
next
  case (work i)
  have np: "\<not> polling e s" using work(1) by (simp add: polling_def split: mpc.splits)
  from work(2) have "(s', s) \<in> rank_less"
  proof (cases rule: work_stepE)
    case (failed err)
    then show ?thesis
      using rank_worker [of i s "W_Failed err" _ W_Leave] by simp
  next
    case (fetched crawlResult)
    then show ?thesis
      using rank_worker [of i s "W_Fetched crawlResult" _ "W_Expand crawlResult"] by simp
  next
    case (leaf crawlResult)
    then show ?thesis
      using rank_worker [of i s "W_Expand crawlResult" s W_Leave] by simp
  next
    case (files crawlableLinks fileLinks)
    then show ?thesis
      using rank_worker [of i s "W_Files crawlableLinks fileLinks" _ "W_Enqueue crawlableLinks"]
      by simp
  next
    case enq_end
    then show ?thesis using rank_worker [of i s "W_Enqueue []" s W_Leave] by simp
  next
    case (enq link links)
    then show ?thesis
      using rank_worker [of i s "W_Enqueue (link # links)" _ "W_Enqueue links"] by simp
  next
    case (drop link links)
    then show ?thesis
      using rank_worker [of i s "W_Enqueue (link # links)" s "W_Enqueue links"] by simp
  next
    case leave
    then show ?thesis using rank_worker [of i s W_Leave _ W_Release] by simp
  next
    case release
    then show ?thesis using rank_worker [of i s W_Release _ W_Done] by simp
  next
    case counted
    then show ?thesis using rank_worker [of i s W_Done _ W_Dead] by simp
  next
    case panic
    then show ?thesis using no_panic [OF _ panic(1,2)] assms(1) by (simp add: crawl_inv_def)
  qed
  then show ?thesis using np by simp
qed


section \<open>No deadlock\<close>

lemma seed_ok_step:
  assumes "seed_ok s" and "step lib e s = Some s'"
  shows "seed_ok s'"
  using assms(2)
proof (cases rule: stepE)
  case sched
  from sched(2) show ?thesis by (cases rule: sched_stepE) (simp_all add: seed_ok_def)
next
  case (work i)
  from work(2) show ?thesis using assms(1)
    by (cases rule: work_stepE) (auto simp: seed_ok_def)
qed (use assms(1) in \<open>auto simp: seed_ok_def\<close>)

lemma seed_ok_start: "SpiderWebsite_start lib target given = Inr s0 \<Longrightarrow> seed_ok s0"
  by (simp add: seed_ok_def start_fields)

lemma count_witness: "0 < count P ws \<Longrightarrow> \<exists>i < length ws. P (wpc (ws ! i))"
  by (auto simp: count_def filter_empty_conv in_set_conv_nth)

lemma finite_dom_processLink:
  assumes "finite (dom c)" and "finite (dom f)"
    and "processLinkFromResponse lib href label baseURL pb sub (c, f) = (c', f')"
  shows "finite (dom c') \<and> finite (dom f')"
  using processLink_shape [of lib href label baseURL pb sub c f] assms
  by (auto split: if_splits)

lemma finite_dom_extractLinks_sets:
  "finite (dom c) \<Longrightarrow> finite (dom f) \<Longrightarrow>
   extractLinks_sets lib links baseURL pb sub (c, f) = (c', f') \<Longrightarrow>
   finite (dom c') \<and> finite (dom f')"
proof (induction links arbitrary: c f)
  case Nil
  then show ?case by simp
next
  case (Cons link links)
  show ?case
  proof (cases "strings_TrimSpace lib (Href link) = []")
    case True
    with Cons.prems(3) have "extractLinks_sets lib links baseURL pb sub (c, f) = (c', f')"
      by simp
    then show ?thesis by (rule Cons.IH [OF Cons.prems(1,2)])
  next
    case False
    obtain c1 f1 where p: "processLinkFromResponse lib (strings_TrimSpace lib (Href link))
        (Text link) baseURL pb sub (c, f) = (c1, f1)"
      by (cases "processLinkFromResponse lib (strings_TrimSpace lib (Href link))
        (Text link) baseURL pb sub (c, f)")
    have w: "finite (dom c1) \<and> finite (dom f1)"
      using finite_dom_processLink [OF Cons.prems(1,2) p] .
    have "extractLinks_sets lib links baseURL pb sub (c1, f1) = (c', f')"
      using Cons.prems(3) False p by (simp add: Let_def)
    then show ?thesis by (rule Cons.IH [OF conjunct1 [OF w] conjunct2 [OF w]])
  qed
qed

lemma extractLinks_total:
  "\<exists>crawlable fileLinks. extractLinks lib page baseURL pb sub crawlable fileLinks"
proof -
  obtain c f where cf: "extractLinks_sets lib (Internal (cr_Links page)) baseURL pb sub
      (Map.empty, Map.empty) = (c, f)"
    by (cases "extractLinks_sets lib (Internal (cr_Links page)) baseURL pb sub
      (Map.empty, Map.empty)")
  have "finite (dom c) \<and> finite (dom f)"
    using finite_dom_extractLinks_sets [OF _ _ cf] by simp
  then obtain cl fl where "distinct cl" "set cl = dom c" "distinct fl" "set fl = dom f"
    using finite_distinct_list by metis
  then show ?thesis by (auto simp: extractLinks_def cf range_keys_def)
qed

text \<open>A worker that has not finished can move, whatever the other threads do.\<close>

lemma worker_enabled:
  assumes "counts_ok s" and "i < length (workers s)" and "alive (wpc (workers s ! i))"
  shows "\<exists>e. moves e = Some i \<and> step lib e s \<noteq> None"
proof (cases "wpc (workers s ! i)")
  case W_Fetch
  then have "step lib (Fetch_Err i []) s \<noteq> None" using assms(2)
    by (simp add: step_def fetch_step_def)
  then show ?thesis by (intro exI [of _ "Fetch_Err i []"]) (simp add: moves_def)
next
  case (W_Expand crawlResult)
  show ?thesis
  proof (cases "currentDepth (workers s ! i) < MaxDepth (options s)")
    case True
    obtain cl fl where "extractLinks lib crawlResult (currentURL (workers s ! i)) (parsedURL s)
        (CrawlSubDomain (options s)) cl fl"
      using extractLinks_total by blast
    then have "step lib (Extract i cl fl) s \<noteq> None" using assms(2) W_Expand True
      by (simp add: step_def extract_step_def)
    then show ?thesis by (intro exI [of _ "Extract i cl fl"]) (simp add: moves_def)
  next
    case False
    then have "step lib (Work i) s \<noteq> None" using assms(2) W_Expand
      by (simp add: step_def work_step_def)
    then show ?thesis by (intro exI [of _ "Work i"]) (simp add: moves_def)
  qed
next
  case W_Release
  then have "0 < semaphore s"
    using permit_held [OF assms(1,2)] by (simp add: holds_permit_def)
  then have "step lib (Work i) s \<noteq> None" using assms(2) W_Release
    by (simp add: step_def work_step_def)
  then show ?thesis by (intro exI [of _ "Work i"]) (simp add: moves_def)
next
  case W_Dead
  then show ?thesis using assms(3) by (simp add: alive_def)
next
  case (W_Enqueue links)
  then have "step lib (Work i) s \<noteq> None" using assms(2)
    by (cases links) (simp_all add: step_def work_step_def)
  then show ?thesis by (intro exI [of _ "Work i"]) (simp add: moves_def)
qed (use assms(2) in
      \<open>auto simp: step_def work_step_def Let_def moves_def intro!: exI [of _ "Work i"]\<close>)

lemma no_deadlock:
  assumes "counts_ok s" and "seed_ok s"
    and "0 < Concurrency (options s)" and "0 < urlJobs_cap s" and "mpc s \<noteq> M_Return"
  shows "\<exists>e. step lib e s \<noteq> None"
proof (cases "mpc s")
  case M_Seed
  then have "step lib Sched s \<noteq> None" using assms(2,4)
    by (simp add: step_def sched_step_def seed_ok_def)
  then show ?thesis by blast
next
  case M_Select
  then have "step lib Idle s \<noteq> None" by (simp add: step_def idle_step_def)
  then show ?thesis by blast
next
  case (M_Spawn job)
  show ?thesis
  proof (cases "semaphore s < Concurrency (options s)")
    case True
    then have "step lib Sched s \<noteq> None" using M_Spawn by (simp add: step_def sched_step_def)
    then show ?thesis by blast
  next
    case False
    then have "0 < count holds_permit (workers s)"
      using assms(1,3) by (simp add: counts_ok_def)
    then obtain i where "i < length (workers s)" "holds_permit (wpc (workers s ! i))"
      using count_witness by blast
    then show ?thesis using worker_enabled [OF assms(1), of i lib]
      by (auto simp: holds_permit_def alive_def)
  qed
next
  case M_Wait
  show ?thesis
  proof (cases "wg s = 0")
    case True
    then have "step lib Sched s \<noteq> None" using M_Wait by (simp add: step_def sched_step_def)
    then show ?thesis by blast
  next
    case False
    then have "0 < count alive (workers s)" using assms(1) by (simp add: counts_ok_def)
    then obtain i where "i < length (workers s)" "alive (wpc (workers s ! i))"
      using count_witness by blast
    then show ?thesis using worker_enabled [OF assms(1), of i lib] by auto
  qed
next
  case M_Return
  then show ?thesis using assms(5) by simp
next
  case M_Panic
  then show ?thesis using assms(1) by (simp add: counts_ok_def)
qed (auto simp: step_def sched_step_def intro!: exI [of _ Sched])


section \<open>Infinite executions\<close>

lemma execution_inv:
  assumes "crawl_inv (sts 0)" and "execution lib sts evs"
  shows "crawl_inv (sts n)"
proof (induction n)
  case 0
  then show ?case using assms(1) .
next
  case (Suc n)
  have "step lib (evs n) (sts n) = Some (sts (Suc n))"
    using assms(2) by (simp add: execution_def)
  with Suc show ?case by (rule crawl_inv_step)
qed

lemma trans_rank_order:
  "(a, b) \<in> less_than <*lex*> less_than <*lex*> less_than \<Longrightarrow>
   (b, c) \<in> less_than <*lex*> less_than <*lex*> less_than \<Longrightarrow>
   (a, c) \<in> less_than <*lex*> less_than <*lex*> less_than"
proof -
  have "trans (less_than <*lex*> less_than <*lex*> less_than)"
    by (intro trans_lex_prod trans_less_than)
  then show "(a, b) \<in> less_than <*lex*> less_than <*lex*> less_than \<Longrightarrow>
   (b, c) \<in> less_than <*lex*> less_than <*lex*> less_than \<Longrightarrow>
   (a, c) \<in> less_than <*lex*> less_than <*lex*> less_than"
    by (rule transD)
qed

lemma rank_mono:
  assumes "crawl_inv (sts 0)" and "execution lib sts evs"
  shows "rank (sts (k + j)) = rank (sts k) \<or>
    (rank (sts (k + j)), rank (sts k)) \<in> less_than <*lex*> less_than <*lex*> less_than"
proof (induction j)
  case 0
  then show ?case by simp
next
  case (Suc j)
  have st: "step lib (evs (k + j)) (sts (k + j)) = Some (sts (Suc (k + j)))"
    using assms(2) by (simp add: execution_def)
  have "rank (sts (Suc (k + j))) = rank (sts (k + j)) \<or>
    (rank (sts (Suc (k + j))), rank (sts (k + j))) \<in>
      less_than <*lex*> less_than <*lex*> less_than"
    using rank_step [OF execution_inv [OF assms] st]
    by (auto simp: rank_less_def split: if_splits)
  then show ?case using Suc trans_rank_order by (metis add_Suc_right)
qed

lemma eventually_polling:
  assumes "crawl_inv (sts 0)" and "execution lib sts evs"
  shows "\<exists>N. \<forall>n \<ge> N. polling (evs n) (sts n)"
proof -
  let ?R = "less_than <*lex*> less_than <*lex*> less_than"
  have wf: "wf ?R" by (intro wf_lex_prod wf_less_than)
  have "\<forall>k. rank (sts k) = x \<longrightarrow> (\<exists>N. \<forall>n \<ge> N. polling (evs n) (sts n))" for x
  proof (induction x rule: wf_induct_rule [OF wf])
    case (1 x)
    show ?case
    proof (intro allI impI)
      fix k
      assume k: "rank (sts k) = x"
      show "\<exists>N. \<forall>n \<ge> N. polling (evs n) (sts n)"
      proof (cases "\<forall>n \<ge> k. polling (evs n) (sts n)")
        case True
        then show ?thesis by blast
      next
        case False
        then obtain n where n: "k \<le> n" "\<not> polling (evs n) (sts n)" by blast
        then obtain j where j: "n = k + j" using le_Suc_ex by blast
        have st: "step lib (evs n) (sts n) = Some (sts (Suc n))"
          using assms(2) by (simp add: execution_def)
        have down: "(rank (sts (Suc n)), rank (sts n)) \<in> ?R"
          using rank_step [OF execution_inv [OF assms] st] n(2) by (simp add: rank_less_def)
        have "rank (sts n) = x \<or> (rank (sts n), x) \<in> ?R"
          using rank_mono [OF assms, of k j] j k by simp
        then have "(rank (sts (Suc n)), x) \<in> ?R"
          using down trans_rank_order by metis
        then show ?thesis using 1 by blast
      qed
    qed
  qed
  then show ?thesis by blast
qed

lemma polling_step:
  assumes "polling e s" and "step lib e s = Some s'"
  shows "(mpc s = M_Select \<and> s' = s\<lparr>mpc := M_Idle\<rparr>) \<or>
    (mpc s = M_Idle \<and> s' = s\<lparr>mpc := M_IdleCheck (activeWorkers s)\<rparr>) \<or>
    (\<exists>n. mpc s = M_IdleCheck n \<and> s' = s\<lparr>mpc := M_Select\<rparr>)"
  using assms
  by (cases "mpc s") (auto simp: polling_def step_def idle_step_def sched_step_def)

lemma polling_frame:
  assumes "polling e s" and "step lib e s = Some s'"
  shows "workers s' = workers s \<and> urlJobs s' = urlJobs s \<and> result s' = result s \<and>
    activeWorkers s' = activeWorkers s"
  using polling_step [OF assms] by auto

text \<open>
  An execution that goes on for ever is, from some state on, the idle polling of the
  caller's goroutine alone, while a job waits in the channel or a worker that has not
  finished is never moved.
\<close>

lemma endless_is_polling:
  assumes "crawl_inv (sts 0)" and "execution lib sts evs"
  shows "\<exists>N. (\<forall>n \<ge> N. polling (evs n) (sts n) \<and> moves (evs n) = None \<and>
        workers (sts n) = workers (sts N) \<and> urlJobs (sts n) = urlJobs (sts N) \<and>
        result (sts n) = result (sts N)) \<and>
      (urlJobs (sts N) \<noteq> [] \<or>
       (\<exists>i < length (workers (sts N)). active (wpc (workers (sts N) ! i))))"
proof -
  obtain N where N: "\<forall>n \<ge> N. polling (evs n) (sts n)"
    using eventually_polling [OF assms] by blast
  have st: "step lib (evs n) (sts n) = Some (sts (Suc n))" for n
    using assms(2) by (simp add: execution_def)
  have next_pc: "(mpc (sts n) = M_Select \<and> mpc (sts (Suc n)) = M_Idle) \<or>
      (mpc (sts n) = M_Idle \<and>
       mpc (sts (Suc n)) = M_IdleCheck (activeWorkers (sts (Suc n)))) \<or>
      (\<exists>k. mpc (sts n) = M_IdleCheck k \<and> mpc (sts (Suc n)) = M_Select)"
    if "N \<le> n" for n
    using polling_step [OF _ st [of n]] N that by auto
  have "\<exists>M \<ge> N. mpc (sts M) = M_IdleCheck (activeWorkers (sts M))"
  proof -
    consider "mpc (sts N) = M_Idle" | "mpc (sts N) = M_Select"
      | k where "mpc (sts N) = M_IdleCheck k"
      using next_pc [of N] by auto
    then show ?thesis
    proof cases
      case 1
      then have "mpc (sts (Suc N)) = M_IdleCheck (activeWorkers (sts (Suc N)))"
        using next_pc [of N] by auto
      then show ?thesis by (intro exI [of _ "Suc N"]) simp
    next
      case 2
      then have "mpc (sts (Suc N)) = M_Idle" using next_pc [of N] by auto
      then have "mpc (sts (Suc (Suc N))) = M_IdleCheck (activeWorkers (sts (Suc (Suc N))))"
        using next_pc [of "Suc N"] by auto
      then show ?thesis by (intro exI [of _ "Suc (Suc N)"]) simp
    next
      case 3
      then have "mpc (sts (Suc N)) = M_Select" using next_pc [of N] by auto
      then have "mpc (sts (Suc (Suc N))) = M_Idle" using next_pc [of "Suc N"] by auto
      then have "mpc (sts (Suc (Suc (Suc N)))) =
          M_IdleCheck (activeWorkers (sts (Suc (Suc (Suc N)))))"
        using next_pc [of "Suc (Suc N)"] by auto
      then show ?thesis by (intro exI [of _ "Suc (Suc (Suc N))"]) simp
    qed
  qed
  then obtain M where M: "N \<le> M" "mpc (sts M) = M_IdleCheck (activeWorkers (sts M))"
    by blast
  have poll: "polling (evs n) (sts n)" if "M \<le> n" for n using N M(1) that by simp
  have frozen: "workers (sts (M + j)) = workers (sts M) \<and>
      urlJobs (sts (M + j)) = urlJobs (sts M) \<and> result (sts (M + j)) = result (sts M)" for j
  proof (induction j)
    case 0
    then show ?case by simp
  next
    case (Suc j)
    then show ?case using polling_frame [OF poll st, of "M + j"] by simp
  qed
  have frozen': "workers (sts n) = workers (sts M) \<and> urlJobs (sts n) = urlJobs (sts M) \<and>
      result (sts n) = result (sts M)" if "M \<le> n" for n
    using frozen [of "n - M"] that by simp
  have main: "moves (evs n) = None" if "M \<le> n" for n
    using poll [OF that] by (cases "mpc (sts n)") (auto simp: polling_def moves_def)
  have "activeWorkers (sts M) \<noteq> 0 \<or> urlJobs (sts M) \<noteq> []"
    using poll [of M] M(2) by (simp add: polling_def)
  moreover have "\<exists>i < length (workers (sts M)). active (wpc (workers (sts M) ! i))"
    if "activeWorkers (sts M) \<noteq> 0"
  proof -
    have "counts_ok (sts M)" using execution_inv [OF assms] by (simp add: crawl_inv_def)
    then have "0 < count active (workers (sts M))" using that by (simp add: counts_ok_def)
    then show ?thesis by (rule count_witness)
  qed
  ultimately have "urlJobs (sts M) \<noteq> [] \<or>
      (\<exists>i < length (workers (sts M)). active (wpc (workers (sts M) ! i)))"
    by blast
  then show ?thesis using poll main frozen' by (intro exI [of _ M]) blast
qed


section \<open>A fetcher that always fails\<close>

lemma failing_before_step:
  assumes "failing_before s" and "SuccessfulPages (result s) = 0"
    and "CrawledURLs (result s) = []"
    and "0 \<le> MaxDepth (options s)" and "1 \<le> MaxPages (options s)"
    and "step lib e s = Some s'"
  shows "failing_ok s'"
  using assms(6)
proof (cases rule: stepE)
  case (recv job jobs)
  then show ?thesis using assms(1-3)
    by (auto simp: failing_ok_def failing_before_def seed_job_def)
next
  case idle
  then show ?thesis using assms(1-3)
    by (auto simp: failing_ok_def failing_before_def seed_job_def)
next
  case sched
  from sched(2) show ?thesis
  proof (cases rule: sched_stepE)
    case (reject job)
    then show ?thesis using assms(1-5)
      by (auto simp: failing_ok_def failing_before_def seed_job_def)
  next
    case (seen job)
    then show ?thesis using assms(1-3)
      by (auto simp: failing_ok_def failing_before_def seed_job_def lookup_def)
  next
    case (spawn job)
    then show ?thesis using assms(1-3)
      by (auto simp: failing_ok_def failing_before_def failing_after_def seed_job_def)
  next
    case finish
    then show ?thesis using assms(1-3)
      by (auto simp: failing_ok_def failing_before_def seed_job_def)
  qed (use assms(1-3) in \<open>auto simp: failing_ok_def failing_before_def seed_job_def\<close>)
next
  case (work i)
  from work(2) show ?thesis using assms(1)
    by (cases rule: work_stepE) (auto simp: failing_before_def)
qed (use assms(1) in \<open>auto simp: failing_before_def\<close>)

lemma failing_after_step:
  assumes "failing_after s" and "SuccessfulPages (result s) = 0"
    and "CrawledURLs (result s) = []" and "counts_ok s"
    and "\<not> is_page e" and "step lib e s = Some s'"
  shows "failing_ok s'"
proof -
  obtain w where w: "workers s = [w]" "currentURL w = targetURL s"
    and pc: "(wpc w = W_Fetch \<or> (\<exists>err. wpc w = W_Failed err)) \<and>
           FailedPages (result s) = Map.empty \<or>
         (wpc w = W_Leave \<or> wpc w = W_Release \<or> wpc w = W_Done \<or> wpc w = W_Dead) \<and>
           dom (FailedPages (result s)) = {targetURL s}"
    and fin: "mpc s = M_Finalize \<or> mpc s = M_Return \<longrightarrow> wpc w = W_Dead"
    and q: "urlJobs s = []"
    and m: "mpc s = M_Limit \<or> mpc s = M_Select \<or> mpc s = M_Idle \<or>
      (\<exists>n. mpc s = M_IdleCheck n) \<or> mpc s = M_Wait \<or> mpc s = M_Finalize \<or> mpc s = M_Return"
    using assms(1) unfolding failing_after_def by blast
  have wg: "wg s = 0 \<Longrightarrow> wpc w = W_Dead"
    using assms(4) w(1) by (auto simp: counts_ok_def count_def alive_def split: if_splits)
  have after: "failing_after t"
    if "workers t = [w\<lparr>wpc := pc'\<rparr>]" "targetURL t = targetURL s" "urlJobs t = []"
      "mpc t = mpc s"
      "(pc' = W_Fetch \<or> (\<exists>err. pc' = W_Failed err)) \<and>
           FailedPages (result t) = Map.empty \<or>
         (pc' = W_Leave \<or> pc' = W_Release \<or> pc' = W_Done \<or> pc' = W_Dead) \<and>
           dom (FailedPages (result t)) = {targetURL s}"
      "mpc s = M_Finalize \<or> mpc s = M_Return \<longrightarrow> pc' = W_Dead"
    for t pc'
    using that w(2) m unfolding failing_after_def by auto
  have live: "mpc s \<noteq> M_Finalize \<and> mpc s \<noteq> M_Return" if "wpc w \<noteq> W_Dead"
    using fin that by blast
  from assms(6) show ?thesis
  proof (cases rule: stepE)
    case (recv job jobs)
    then show ?thesis using q by simp
  next
    case idle
    then show ?thesis using assms(1-3) w
      by (auto simp: failing_ok_def failing_after_def)
  next
    case sched
    from sched(2) show ?thesis
    proof (cases rule: sched_stepE)
      case joined
      then show ?thesis using assms(1-3) wg w
        by (auto simp: failing_ok_def failing_after_def)
    qed (use assms(1-3) m w in \<open>auto simp: failing_ok_def failing_after_def\<close>)
  next
    case (fetch_ok i crawlResult)
    then show ?thesis using assms(5) by (simp add: is_page_def)
  next
    case (fetch_err i err)
    then have i: "i = 0" and at: "wpc w = W_Fetch" using w(1) by auto
    have "failing_after s'"
      using fetch_err(4) i w pc at live q
      by (intro after [of _ "W_Failed err"]) (auto simp: at_wpc_def)
    then show ?thesis using assms(2,3) fetch_err(4) by (simp add: failing_ok_def)
  next
    case (extracted i crawlResult crawlableLinks fileLinks)
    then have "wpc w = W_Expand crawlResult" using w(1) by auto
    then show ?thesis using pc by auto
  next
    case (work i)
    from work(2) show ?thesis
    proof (cases rule: work_stepE)
      case (failed err)
      then have i: "i = 0" and at: "wpc w = W_Failed err" using w(1) by auto
      have "failing_after s'"
        using failed(3) i w pc at live q
        by (intro after [of _ W_Leave]) (auto simp: at_wpc_def)
      then show ?thesis using assms(2,3) failed(3) by (simp add: failing_ok_def)
    next
      case (fetched crawlResult)
      then have "wpc w = W_Fetched crawlResult" using w(1) by auto
      then show ?thesis using pc by auto
    next
      case (leaf crawlResult)
      then have "wpc w = W_Expand crawlResult" using w(1) by auto
      then show ?thesis using pc by auto
    next
      case (files crawlableLinks fileLinks)
      then have "wpc w = W_Files crawlableLinks fileLinks" using w(1) by auto
      then show ?thesis using pc by auto
    next
      case enq_end
      then have "wpc w = W_Enqueue []" using w(1) by auto
      then show ?thesis using pc by auto
    next
      case (enq link links)
      then have "wpc w = W_Enqueue (link # links)" using w(1) by auto
      then show ?thesis using pc by auto
    next
      case (drop link links)
      then have "wpc w = W_Enqueue (link # links)" using w(1) by auto
      then show ?thesis using pc by auto
    next
      case leave
      then have i: "i = 0" and at: "wpc w = W_Leave" using w(1) by auto
      have "failing_after s'"
        using leave(3) i w pc at live q
        by (intro after [of _ W_Release]) (auto simp: at_wpc_def)
      then show ?thesis using assms(2,3) leave(3) by (simp add: failing_ok_def)
    next
      case release
      then have i: "i = 0" and at: "wpc w = W_Release" using w(1) by auto
      have "failing_after s'"
        using release(4) i w pc at live q
        by (intro after [of _ W_Done]) (auto simp: at_wpc_def)
      then show ?thesis using assms(2,3) release(4) by (simp add: failing_ok_def)
    next
      case counted
      then have i: "i = 0" and at: "wpc w = W_Done" using w(1) by auto
      have "failing_after s'"
        using counted(4) i w pc at live q
        by (intro after [of _ W_Dead]) (auto simp: at_wpc_def)
      then show ?thesis using assms(2,3) counted(4) by (simp add: failing_ok_def)
    next
      case panic
      then show ?thesis using no_panic [OF assms(4) panic(1,2)] by simp
    qed
  qed
qed

lemma failing_ok_step:
  assumes "failing_ok s" and "counts_ok s"
    and "0 \<le> MaxDepth (options s) \<and> 1 \<le> MaxPages (options s)"
    and "\<not> is_page e" and "step lib e s = Some s'"
  shows "failing_ok s'"
proof -
  have r: "SuccessfulPages (result s) = 0" "CrawledURLs (result s) = []"
    using assms(1) by (simp_all add: failing_ok_def)
  show ?thesis
  proof (cases "failing_before s")
    case True
    show ?thesis
      using failing_before_step [OF True r conjunct1 [OF assms(3)] conjunct2 [OF assms(3)]
          assms(5)] .
  next
    case False
    then have "failing_after s" using assms(1) by (simp add: failing_ok_def)
    then show ?thesis using r assms(2,4,5) by (rule failing_after_step)
  qed
qed

lemma failing_ok_exec:
  assumes "failing_ok s" and "crawl_inv s"
    and "0 \<le> MaxDepth (options s) \<and> 1 \<le> MaxPages (options s)"
    and "list_all (\<lambda>e. \<not> is_page e) es" and "exec lib es s = Some s'"
  shows "failing_ok s'"
  using assms
proof (induction es arbitrary: s)
  case Nil
  then show ?case by simp
next
  case (Cons e es)
  then obtain t where t: "step lib e s = Some t" and rest: "exec lib es t = Some s'"
    by (auto split: option.splits)
  have c: "counts_ok s" using Cons.prems(2) by (simp add: crawl_inv_def)
  have e: "\<not> is_page e" and es: "list_all (\<lambda>e. \<not> is_page e) es"
    using Cons.prems(4) by simp_all
  have 1: "failing_ok t" using Cons.prems(1) c Cons.prems(3) e t by (rule failing_ok_step)
  have 2: "crawl_inv t" using Cons.prems(2) t by (rule crawl_inv_step)
  have 3: "0 \<le> MaxDepth (options t) \<and> 1 \<le> MaxPages (options t)"
    using step_frame [OF t] Cons.prems(3) by (simp add: same_frame_def)
  show ?case using 1 2 3 es rest by (rule Cons.IH)
qed

lemma failing_ok_start:
  "SpiderWebsite_start lib target given = Inr s0 \<Longrightarrow> failing_ok s0"
  by (simp add: failing_ok_def failing_before_def start_fields)

lemma failing_ok_returned:
  assumes "failing_ok s" and "mpc s = M_Return"
  shows "SuccessfulPages (result s) = 0 \<and> CrawledURLs (result s) = [] \<and>
    dom (FailedPages (result s)) = {targetURL s}"
  using assms by (auto simp: failing_ok_def failing_before_def failing_after_def)


section \<open>Every URL is fetched once\<close>

lemma step_workers:
  assumes "step lib e s = Some t" and "k < length (workers s)"
  shows "k < length (workers t) \<and> currentURL (workers t ! k) = currentURL (workers s ! k) \<and>
    (wpc (workers s ! k) \<noteq> W_Fetch \<longrightarrow> wpc (workers t ! k) \<noteq> W_Fetch)"
  using assms(1)
proof (cases rule: stepE)
  case sched
  from sched(2) show ?thesis using assms(2)
    by (cases rule: sched_stepE) (auto simp: nth_append)
next
  case (work i)
  from work(2) show ?thesis using assms(2)
    by (cases rule: work_stepE) (auto simp: nth_list_update)
qed (use assms(2) in \<open>auto simp: nth_list_update\<close>)

lemma fetches_step:
  assumes "visited_ok s" and "step lib e s = Some t"
  shows "fetches e s = [] \<or>
    (\<exists>i < length (workers s). fetches e s = [currentURL (workers s ! i)] \<and>
       wpc (workers s ! i) = W_Fetch \<and> wpc (workers t ! i) \<noteq> W_Fetch \<and>
       i < length (workers t) \<and> currentURL (workers t ! i) = currentURL (workers s ! i))"
  using assms(2)
proof (cases rule: stepE)
  case (fetch_ok i crawlResult)
  then show ?thesis by (auto simp: fetches_def)
next
  case (fetch_err i err)
  then show ?thesis by (auto simp: fetches_def)
qed (simp_all add: fetches_def)

lemma fetched_distinct:
  assumes "crawl_inv s" and "exec lib es s = Some s'"
  shows "distinct (fetched lib es s) \<and>
    (\<forall>k < length (workers s). wpc (workers s ! k) \<noteq> W_Fetch \<longrightarrow>
       currentURL (workers s ! k) \<notin> set (fetched lib es s))"
  using assms
proof (induction es arbitrary: s)
  case Nil
  then show ?case by simp
next
  case (Cons e es)
  then obtain t where t: "step lib e s = Some t" and rest: "exec lib es t = Some s'"
    by (auto split: option.splits)
  have inv: "crawl_inv t" using Cons.prems(1) t by (rule crawl_inv_step)
  have v: "visited_ok s" using Cons.prems(1) by (simp add: crawl_inv_def)
  then have d: "distinct (worker_urls s)" by (simp add: visited_ok_def)
  have ih: "distinct (fetched lib es t)"
    "\<And>k. k < length (workers t) \<Longrightarrow> wpc (workers t ! k) \<noteq> W_Fetch \<Longrightarrow>
       currentURL (workers t ! k) \<notin> set (fetched lib es t)"
    using Cons.IH [OF inv rest] by simp_all
  have old: "currentURL (workers s ! k) \<notin> set (fetched lib es t)"
    if "k < length (workers s)" "wpc (workers s ! k) \<noteq> W_Fetch" for k
    using step_workers [OF t that(1)] that(2) ih(2) [of k] by auto
  show ?case
    using fetches_step [OF v t]
  proof (elim disjE exE conjE)
    assume "fetches e s = []"
    then show ?thesis using t ih(1) old by simp
  next
    fix i
    assume i: "i < length (workers s)" "fetches e s = [currentURL (workers s ! i)]"
      "wpc (workers s ! i) = W_Fetch" "wpc (workers t ! i) \<noteq> W_Fetch"
      "i < length (workers t)" "currentURL (workers t ! i) = currentURL (workers s ! i)"
    have new: "currentURL (workers s ! i) \<notin> set (fetched lib es t)"
      using ih(2) [of i] i by simp
    have other: "currentURL (workers s ! k) \<noteq> currentURL (workers s ! i)"
      if "k < length (workers s)" "wpc (workers s ! k) \<noteq> W_Fetch" for k
    proof -
      have "k \<noteq> i" using that(2) i(3) by auto
      then show ?thesis using worker_url_neq [OF d i(1) that(1)] by simp
    qed
    show ?thesis using t i(2) ih(1) new old other by simp
  qed
qed

section \<open>The call returns\<close>

lemma int64_id: "- (2 ^ 63) \<le> x \<Longrightarrow> x < 2 ^ 63 \<Longrightarrow> int64 x = x"
  by (simp add: int64_def)

lemma start_cases:
  "SpiderWebsite_start lib target given = Inl ParseError \<longleftrightarrow> url_Parse lib target = None"
  by (auto simp: SpiderWebsite_start_def Let_def split: option.splits)

lemma int64_wrap:
  assumes "2 ^ 62 \<le> m" and "m < 2 ^ 63"
  shows "int64 (m * 2) = m * 2 - 2 ^ 64"
proof -
  define x where "x = m * 2 + 2 ^ 63 - (2::int) ^ 64"
  have "x mod 2 ^ 64 = x"
    using assms unfolding x_def by (intro mod_pos_pos_trivial) simp_all
  moreover have "(x + 2 ^ 64) mod 2 ^ 64 = x mod 2 ^ 64" by (rule mod_add_self2)
  moreover have "x + 2 ^ 64 = m * 2 + 2 ^ 63" unfolding x_def by simp
  ultimately have "(m * 2 + 2 ^ 63) mod 2 ^ 64 = m * 2 + 2 ^ 63 - 2 ^ 64"
    unfolding x_def by metis
  then show ?thesis by (simp add: int64_def)
qed

lemma start_cap:
  assumes "SpiderWebsite_start lib target given = Inr s0"
    and "MaxPages (coerce given) < 2 ^ 63"
  shows "0 < urlJobs_cap s0"
proof -
  let ?m = "MaxPages (coerce given)"
  have one: "1 \<le> ?m" by (rule MaxPages_coerce)
  have cap: "urlJobs_cap s0 = int64 (?m * 2)" and pos: "\<not> int64 (?m * 2) < 0"
    using assms(1)
    by (auto simp: SpiderWebsite_start_def Let_def split: option.splits if_splits)
  show ?thesis
  proof (cases "?m < 2 ^ 62")
    case True
    then have "int64 (?m * 2) = ?m * 2" using one by (intro int64_id) simp_all
    then show ?thesis using cap one by simp
  next
    case False
    then have "int64 (?m * 2) = ?m * 2 - 2 ^ 64"
      using assms(2) by (intro int64_wrap) simp_all
    then show ?thesis using pos assms(2) by simp
  qed
qed

lemma failure_recorded:
  assumes "i < length (workers s)" and "wpc (workers s ! i) = W_Failed err"
  shows "\<exists>s'. step lib (Work i) s = Some s' \<and>
    FailedPages (result s') (currentURL (workers s ! i)) = Some err \<and>
    wpc (workers s' ! i) = W_Leave"
  using assms by (simp add: step_def work_step_def Let_def)

lemma failure_reported:
  assumes "step lib (Fetch_Err i err) s = Some s'"
  shows "wpc (workers s' ! i) = W_Failed err \<and> result s' = result s"
  using assms by (cases rule: stepE) auto

subsection \<open>Two executions\<close>

lemma failing_run:
  "\<exists>s0 s. SpiderWebsite_start plain_golib ''https://a.test/'' (Some scenario_options) = Inr s0 \<and>
     exec plain_golib failing_events s0 = Some s \<and> mpc s = M_Return \<and>
     FailedPages (result s) ''https://a.test/'' = Some ''timeout'' \<and>
     TotalPages (result s) = 1 \<and>
     fetched plain_golib failing_events s0 = [''https://a.test/'']"
  by (simp add: scenario_options_def failing_events_def fetches_def
      crawl_defs plain_defs classifier_defs)

lemma starving_run:
  "SpiderWebsite_start plain_golib ''https://a.test/'' (Some scenario_options) =
     Inr scenario_start \<and>
   step plain_golib Sched scenario_start = Some scenario_seeded \<and>
   mpc scenario_seeded = M_Select \<and> activeWorkers scenario_seeded = 0 \<and>
   urlJobs scenario_seeded \<noteq> []"
  by (simp add: scenario_start_def scenario_seeded_def scenario_options_def
      crawl_defs plain_defs classifier_defs)

lemma starving_execution: "execution plain_golib starving_states starving_events"
  unfolding execution_def
proof
  fix n
  have same: "scenario_seeded\<lparr>mpc := M_Select\<rparr> = scenario_seeded"
    using starving_run by (cases scenario_seeded) simp
  show "step plain_golib (starving_events n) (starving_states n) =
      Some (starving_states (Suc n))"
  proof (cases n)
    case 0
    then show ?thesis using starving_run same by simp
  next
    case (Suc m)
    consider "m mod 3 = 0" | "m mod 3 = 1" | "m mod 3 = 2" by linarith
    then show ?thesis
    proof cases
      case 1
      then show ?thesis using Suc by (simp add: step_def idle_step_def mod_Suc)
    next
      case 2
      then show ?thesis using Suc starving_run
        by (simp add: step_def sched_step_def mod_Suc)
    next
      case 3
      then show ?thesis using Suc starving_run
        by (simp add: step_def sched_step_def mod_Suc)
    qed
  qed
qed




end
